theory Spec2Isabelle
  imports Complex_Main "HOL-Library.AList"
begin

section \<open>The rating bar widget (RatingBar.js)\<close>

text \<open>
  The widget keeps a like/dislike tally for the current page, reads and writes it through a
  remote service and caches it in \<open>localStorage\<close> under the key \<open>ratings\<close>, as one JSON text
  holding a table from cleaned page URLs to entries \<open>{likes, dislikes, expires}\<close>.

  The embedding follows the methods of the class \<open>RatingBar\<close> one by one. What the platform
  provides is made explicit:
  \<^item> \<open>localStorage\<close> is the text stored under \<open>ratings\<close>, or nothing (\<open>storage\<close>);
  \<open>Date.now()\<close> is the field \<open>clock\<close>; \<open>fetch\<close> is a function from requests to replies, and a
  reply says how long it took and whether a body arrived;
  \<^item> \<open>window.location\<close> is a record of the parts the code reads (\<open>href\<close>, and the \<open>hostname\<close>
  and \<open>pathname\<close> that \<open>new URL(href)\<close> yields);
  \<^item> \<open>JSON.parse\<close> and \<open>JSON.stringify\<close> are written out for the JSON texts over integers;
  \<^item> a thrown exception or rejected promise is a value \<open>Inl e\<close>.
  The storage is taken to be available and to accept every write, and synchronous code to take
  no time.

  JavaScript is untyped and the model is not: numbers are integers of any size (the counts,
  and clock readings in milliseconds), objects are finite tables of their own properties, which
  inherit the members of \<open>Object.prototype\<close> (\<open>object_members\<close>), and the tally of a session is a
  pair of integers. Where a run of the source leaves this fragment (a number literal with a
  fraction or an exponent, an escape of a character outside ASCII, an array or a string used as
  a table, a comparison or an addition that would coerce a non-number), the model returns
  \<open>Inl Unmodelled\<close>: it makes no statement about such a run, and no theorem below relies on
  one.
\<close>

subsection \<open>JSON values and JavaScript failures\<close>

datatype json =
    JNull
  | JBool bool
  | JNum int
  | JStr string
  | JArr "json list"
  | JObj "(string \<times> json) list"

datatype failure =
    SyntaxError   \<comment> \<open>thrown by \<open>JSON.parse\<close> and by \<open>response.json()\<close>\<close>
  | TypeError     \<comment> \<open>property access on \<open>null\<close>, property creation on a primitive (strict mode)\<close>
  | NetworkError  \<comment> \<open>the promise of \<open>fetch\<close> is rejected\<close>
  | Unmodelled    \<comment> \<open>not a JavaScript exception: the run leaves the modelled fragment\<close>

subsection \<open>\<open>JSON.stringify\<close>\<close>

definition digit_char :: "nat \<Rightarrow> char" where
  "digit_char d = ''0123456789'' ! d"

definition hex_char :: "nat \<Rightarrow> char" where
  "hex_char d = ''0123456789abcdef'' ! d"

function show_digits :: "int \<Rightarrow> string" where
  "show_digits n =
     (if n < 10 then [digit_char (nat n)]
      else show_digits (n div 10) @ [digit_char (nat (n mod 10))])"
  by pat_completeness auto
termination
  by (relation "measure nat") auto

declare show_digits.simps [simp del]

definition show_int :: "int \<Rightarrow> string" where
  "show_int i = (if i < 0 then CHR ''-'' # show_digits (- i) else show_digits i)"

definition escape_char :: "char \<Rightarrow> string" where
  "escape_char c =
     (if c = CHR 0x22 then [CHR 0x5C, CHR 0x22]
      else if c = CHR 0x5C then [CHR 0x5C, CHR 0x5C]
      else if c = CHR 0x08 then [CHR 0x5C, CHR ''b'']
      else if c = CHR 0x0C then [CHR 0x5C, CHR ''f'']
      else if c = CHR 0x0A then [CHR 0x5C, CHR ''n'']
      else if c = CHR 0x0D then [CHR 0x5C, CHR ''r'']
      else if c = CHR 0x09 then [CHR 0x5C, CHR ''t'']
      else if (of_char c :: nat) < 32
        then [CHR 0x5C, CHR ''u'', CHR ''0'', CHR ''0'',
              hex_char ((of_char c :: nat) div 16), hex_char ((of_char c :: nat) mod 16)]
      else [c])"

definition quote :: "string \<Rightarrow> string" where
  "quote s = CHR 0x22 # concat (map escape_char s) @ [CHR 0x22]"

fun commas :: "string list \<Rightarrow> string" where
  "commas [] = []"
| "commas [x] = x"
| "commas (x # y # ys) = x @ CHR '','' # commas (y # ys)"

fun JSON_stringify :: "json \<Rightarrow> string" where
  "JSON_stringify JNull = ''null''"
| "JSON_stringify (JBool b) = (if b then ''true'' else ''false'')"
| "JSON_stringify (JNum i) = show_int i"
| "JSON_stringify (JStr s) = quote s"
| "JSON_stringify (JArr xs) = CHR ''['' # commas (map JSON_stringify xs) @ '']''"
| "JSON_stringify (JObj kvs) =
     CHR ''{'' # commas (map (\<lambda>(k, v). quote k @ CHR '':'' # JSON_stringify v) kvs) @ ''}''"

subsection \<open>\<open>JSON.parse\<close>\<close>

definition is_ws :: "char \<Rightarrow> bool" where
  "is_ws c = (c = CHR '' '' \<or> c = CHR 0x09 \<or> c = CHR 0x0A \<or> c = CHR 0x0D)"

definition is_digit :: "char \<Rightarrow> bool" where
  "is_digit c = (48 \<le> (of_char c :: nat) \<and> (of_char c :: nat) \<le> 57)"

definition skip_ws :: "string \<Rightarrow> string" where
  "skip_ws s = dropWhile is_ws s"

fun strip_prefix :: "string \<Rightarrow> string \<Rightarrow> string option" where
  "strip_prefix [] s = Some s"
| "strip_prefix (p # ps) [] = None"
| "strip_prefix (p # ps) (c # cs) = (if p = c then strip_prefix ps cs else None)"

definition unescape :: "char \<Rightarrow> char option" where
  "unescape e =
     (if e = CHR 0x22 then Some (CHR 0x22)
      else if e = CHR 0x5C then Some (CHR 0x5C)
      else if e = CHR ''/'' then Some (CHR ''/'')
      else if e = CHR ''b'' then Some (CHR 0x08)
      else if e = CHR ''f'' then Some (CHR 0x0C)
      else if e = CHR ''n'' then Some (CHR 0x0A)
      else if e = CHR ''r'' then Some (CHR 0x0D)
      else if e = CHR ''t'' then Some (CHR 0x09)
      else None)"

definition hex_val :: "char \<Rightarrow> nat option" where
  "hex_val c =
     (let n = (of_char c :: nat)
      in if 48 \<le> n \<and> n \<le> 57 then Some (n - 48)
         else if 97 \<le> n \<and> n \<le> 102 then Some (n - 87)
         else if 65 \<le> n \<and> n \<le> 70 then Some (n - 55)
         else None)"

text \<open>The escape \<open>\uXXXX\<close>: an ASCII character is read; a string holds bytes, and the model
  does not follow the other code units.\<close>

definition unicode_escape :: "char \<Rightarrow> char \<Rightarrow> char \<Rightarrow> char \<Rightarrow> failure + char" where
  "unicode_escape h1 h2 h3 h4 =
     (case (hex_val h1, hex_val h2, hex_val h3, hex_val h4) of
        (Some a, Some b, Some c, Some d) \<Rightarrow>
          (let n = ((a * 16 + b) * 16 + c) * 16 + d
           in if n < 128 then Inr (char_of n) else Inl Unmodelled)
      | _ \<Rightarrow> Inl SyntaxError)"

text \<open>The characters of a string literal after its opening quote, and the text after its
  closing quote.\<close>

fun lex_string :: "string \<Rightarrow> failure + (string \<times> string)" where
  "lex_string [] = Inl SyntaxError"
| "lex_string (c # cs) =
     (if c = CHR 0x22 then Inr ([], cs)
      else if c = CHR 0x5C then
        (case cs of
           [] \<Rightarrow> Inl SyntaxError
         | e # cs1 \<Rightarrow>
             if e = CHR ''u'' then
               (case cs1 of
                  h1 # h2 # h3 # h4 # cs2 \<Rightarrow>
                    (case unicode_escape h1 h2 h3 h4 of
                       Inl x \<Rightarrow> Inl x
                     | Inr d \<Rightarrow>
                         (case lex_string cs2 of
                            Inl x \<Rightarrow> Inl x
                          | Inr (s, r) \<Rightarrow> Inr (d # s, r)))
                | _ \<Rightarrow> Inl SyntaxError)
             else
               (case unescape e of
                  None \<Rightarrow> Inl SyntaxError
                | Some d \<Rightarrow>
                    (case lex_string cs1 of
                       Inl x \<Rightarrow> Inl x
                     | Inr (s, r) \<Rightarrow> Inr (d # s, r))))
      else if (of_char c :: nat) < 32 then Inl SyntaxError
      else (case lex_string cs of
              Inl x \<Rightarrow> Inl x
            | Inr (s, r) \<Rightarrow> Inr (c # s, r)))"

fun digits_val :: "int \<Rightarrow> string \<Rightarrow> int \<times> string" where
  "digits_val acc [] = (acc, [])"
| "digits_val acc (c # cs) =
     (if is_digit c then digits_val (10 * acc + ((of_char c :: int) - 48)) cs else (acc, c # cs))"

definition starts_with :: "(char \<Rightarrow> bool) \<Rightarrow> string \<Rightarrow> bool" where
  "starts_with P s = (case s of [] \<Rightarrow> False | c # _ \<Rightarrow> P c)"

text \<open>A number literal: an optional minus sign and an integer without a leading zero. A
  fraction or an exponent after it leaves the modelled fragment.\<close>

definition lex_number :: "string \<Rightarrow> failure + (json \<times> string)" where
  "lex_number s =
     (let neg = starts_with (\<lambda>c. c = CHR ''-'') s;
          s1 = (if neg then tl s else s)
      in if \<not> starts_with is_digit s1 then Inl SyntaxError
         else if starts_with (\<lambda>c. c = CHR ''0'') s1 \<and> starts_with is_digit (tl s1)
           then Inl SyntaxError
         else (case digits_val 0 s1 of
                 (n, r) \<Rightarrow>
                   if starts_with (\<lambda>c. c = CHR ''.'' \<or> c = CHR ''e'' \<or> c = CHR ''E'') r
                   then Inl Unmodelled
                   else Inr (JNum (if neg then - n else n), r)))"

definition literal :: "string \<Rightarrow> json \<Rightarrow> string \<Rightarrow> failure + (json \<times> string)" where
  "literal word v s = (case strip_prefix word s of None \<Rightarrow> Inl SyntaxError | Some r \<Rightarrow> Inr (v, r))"

text \<open>
  Recursive descent over the text; the first argument bounds the number of calls, and
  \<open>JSON_parse\<close> starts with a bound that no text exhausts (a larger one gives the same result,
  as shown below). A duplicate key keeps its first place and takes its last value, as the
  properties of a JavaScript object do.
\<close>

fun parse_value :: "nat \<Rightarrow> string \<Rightarrow> failure + (json \<times> string)"
  and parse_elems :: "nat \<Rightarrow> json list \<Rightarrow> string \<Rightarrow> failure + (json \<times> string)"
  and parse_members :: "nat \<Rightarrow> (string \<times> json) list \<Rightarrow> string \<Rightarrow> failure + (json \<times> string)"
where
  "parse_value 0 s = Inl Unmodelled"
| "parse_value (Suc n) s =
     (case skip_ws s of
        [] \<Rightarrow> Inl SyntaxError
      | c # cs \<Rightarrow>
          if c = CHR ''{'' then
            (if starts_with (\<lambda>c. c = CHR ''}'') (skip_ws cs) then Inr (JObj [], tl (skip_ws cs))
             else parse_members n [] cs)
          else if c = CHR ''['' then
            (if starts_with (\<lambda>c. c = CHR '']'') (skip_ws cs) then Inr (JArr [], tl (skip_ws cs))
             else parse_elems n [] cs)
          else if c = CHR 0x22 then
            (case lex_string cs of Inl x \<Rightarrow> Inl x | Inr (str, r) \<Rightarrow> Inr (JStr str, r))
          else if c = CHR ''n'' then literal ''ull'' JNull cs
          else if c = CHR ''t'' then literal ''rue'' (JBool True) cs
          else if c = CHR ''f'' then literal ''alse'' (JBool False) cs
          else lex_number (c # cs))"
| "parse_elems 0 acc s = Inl Unmodelled"
| "parse_elems (Suc n) acc s =
     (case parse_value n s of
        Inl x \<Rightarrow> Inl x
      | Inr (v, r) \<Rightarrow>
          (case skip_ws r of
             [] \<Rightarrow> Inl SyntaxError
           | c # cs \<Rightarrow>
               if c = CHR '','' then parse_elems n (acc @ [v]) cs
               else if c = CHR '']'' then Inr (JArr (acc @ [v]), cs)
               else Inl SyntaxError))"
| "parse_members 0 acc s = Inl Unmodelled"
| "parse_members (Suc n) acc s =
     (case skip_ws s of
        [] \<Rightarrow> Inl SyntaxError
      | q # s1 \<Rightarrow>
          if q \<noteq> CHR 0x22 then Inl SyntaxError
          else
            (case lex_string s1 of
               Inl x \<Rightarrow> Inl x
             | Inr (k, r) \<Rightarrow>
                 (case skip_ws r of
                    [] \<Rightarrow> Inl SyntaxError
                  | colon # r1 \<Rightarrow>
                      if colon \<noteq> CHR '':'' then Inl SyntaxError
                      else
                        (case parse_value n r1 of
                           Inl x \<Rightarrow> Inl x
                         | Inr (v, r2) \<Rightarrow>
                             (case skip_ws r2 of
                                [] \<Rightarrow> Inl SyntaxError
                              | c # cs \<Rightarrow>
                                  if c = CHR '','' then parse_members n (AList.update k v acc) cs
                                  else if c = CHR ''}'' then Inr (JObj (AList.update k v acc), cs)
                                  else Inl SyntaxError)))))"

definition JSON_parse :: "string \<Rightarrow> failure + json" where
  "JSON_parse s =
     (case parse_value (2 * length s + 2) s of
        Inl x \<Rightarrow> Inl x
      | Inr (v, r) \<Rightarrow> if skip_ws r = [] then Inr v else Inl SyntaxError)"

text \<open>Notions for the proof that \<open>JSON.parse\<close> inverts \<open>JSON.stringify\<close>: the text after
  a number must not continue it, a value starts with one of a few characters, and a member of
  an object is printed as its quoted name, a colon and its value.\<close>

definition num_end :: "string \<Rightarrow> bool" where
  "num_end rest = (\<not> starts_with (\<lambda>c. is_digit c \<or> c = CHR ''.'' \<or> c = CHR ''e'' \<or> c = CHR ''E'') rest)"

definition value_start :: "char \<Rightarrow> bool" where
  "value_start c = (c = CHR ''n'' \<or> c = CHR ''t'' \<or> c = CHR ''f'' \<or> c = CHR ''-'' \<or> is_digit c
     \<or> c = CHR 0x22 \<or> c = CHR ''['' \<or> c = CHR ''{'')"

definition member_text :: "string \<times> json \<Rightarrow> string" where
  "member_text kv = quote (fst kv) @ CHR '':'' # JSON_stringify (snd kv)"

text \<open>The properties of a JavaScript object have distinct names. \<open>JSON.parse\<close> yields such
  values only, and on them it inverts \<open>JSON.stringify\<close> (shown below).\<close>

fun distinct_keys :: "json \<Rightarrow> bool" where
  "distinct_keys (JArr xs) = list_all distinct_keys xs"
| "distinct_keys (JObj kvs) = (distinct (map fst kvs) \<and> list_all (\<lambda>kv. distinct_keys (snd kv)) kvs)"
| "distinct_keys _ = True"

subsection \<open>JavaScript values where the code uses them\<close>

text \<open>\<open>undefined\<close> is \<open>None\<close>. Truthiness, as \<open>if (x)\<close>, \<open>!x\<close> and \<open>x || y\<close> test it.\<close>

definition truthy :: "json \<Rightarrow> bool" where
  "truthy v =
     (case v of
        JNull \<Rightarrow> False
      | JBool b \<Rightarrow> b
      | JNum n \<Rightarrow> n \<noteq> 0
      | JStr s \<Rightarrow> s \<noteq> []
      | JArr _ \<Rightarrow> True
      | JObj _ \<Rightarrow> True)"

definition truthy_opt :: "json option \<Rightarrow> bool" where
  "truthy_opt u = (case u of None \<Rightarrow> False | Some v \<Rightarrow> truthy v)"

fun and_then :: "failure + 'a \<Rightarrow> ('a \<Rightarrow> failure + 'b) \<Rightarrow> failure + 'b" where
  "and_then (Inl e) f = Inl e"
| "and_then (Inr x) f = f x"

text \<open>
  A property read looks at the object's own properties and then at its prototype. The object
  that \<open>JSON.parse\<close> or \<open>{}\<close> makes inherits from \<open>Object.prototype\<close>, whose members are the
  methods below and the accessor \<open>__proto__\<close>; a number or a boolean is read through
  \<open>Number.prototype\<close> or \<open>Boolean.prototype\<close>, which add three names to these. None of them is
  enumerable.
\<close>

definition object_members :: "string list" where
  "object_members =
     [''constructor'', ''__defineGetter__'', ''__defineSetter__'', ''hasOwnProperty'',
      ''__lookupGetter__'', ''__lookupSetter__'', ''isPrototypeOf'', ''propertyIsEnumerable'',
      ''toString'', ''valueOf'', ''__proto__'', ''toLocaleString'']"

definition number_members :: "string list" where
  "number_members = [''toExponential'', ''toFixed'', ''toPrecision'']"

text \<open>The read \<open>v[k]\<close> finds no own property and ends at a member of the prototype: its value
  is a function or, for \<open>__proto__\<close>, the prototype itself.\<close>

definition inherits :: "json \<Rightarrow> string \<Rightarrow> bool" where
  "inherits v k =
     (case v of
        JObj kvs \<Rightarrow> map_of kvs k = None \<and> k \<in> set object_members
      | JNum _ \<Rightarrow> k \<in> set (object_members @ number_members)
      | JBool _ \<Rightarrow> k \<in> set object_members
      | _ \<Rightarrow> False)"

text \<open>The property read \<open>v[k]\<close> where it yields a JSON value or \<open>undefined\<close>. An inherited
  member is not such a value: the caller that can meet one (\<open>getCached\<close>, whose key is the page's)
  asks \<open>inherits\<close> first. Arrays and strings own their indices and \<open>length\<close> and inherit many
  more members; the model does not follow a read of one.\<close>

definition js_get :: "json \<Rightarrow> string \<Rightarrow> failure + json option" where
  "js_get v k =
     (case v of
        JNull \<Rightarrow> Inl TypeError
      | JBool _ \<Rightarrow> if inherits v k then Inl Unmodelled else Inr None
      | JNum _ \<Rightarrow> if inherits v k then Inl Unmodelled else Inr None
      | JStr _ \<Rightarrow> Inl Unmodelled
      | JArr _ \<Rightarrow> Inl Unmodelled
      | JObj kvs \<Rightarrow> if inherits v k then Inl Unmodelled else Inr (map_of kvs k))"

text \<open>The assignment \<open>v[k] = x\<close> in strict mode (a class body is strict). An own property is
  overwritten, and a new one is created, also under the name of an inherited method; creating
  a property on a primitive throws. The name \<open>__proto__\<close>, unless the object owns a property of
  that name, reaches the setter of \<open>Object.prototype\<close> instead: it replaces the prototype of an
  object, does nothing on a primitive, and in both cases adds no property. A property set on an
  array is lost by \<open>JSON.stringify\<close> unless it is an index; the model does not follow it.\<close>

definition js_set :: "json \<Rightarrow> string \<Rightarrow> json \<Rightarrow> failure + json" where
  "js_set v k x =
     (case v of
        JObj kvs \<Rightarrow>
          if k = ''__proto__'' \<and> map_of kvs k = None then Inr v
          else Inr (JObj (AList.update k x kvs))
      | JArr _ \<Rightarrow> Inl Unmodelled
      | JNull \<Rightarrow> Inl TypeError
      | _ \<Rightarrow> if k = ''__proto__'' then Inr v else Inl TypeError)"

text \<open>The own enumerable properties that \<open>{...v}\<close> copies.\<close>

definition spread :: "json \<Rightarrow> failure + (string \<times> json) list" where
  "spread v =
     (case v of
        JObj kvs \<Rightarrow> Inr kvs
      | JArr _ \<Rightarrow> Inl Unmodelled
      | JStr _ \<Rightarrow> Inl Unmodelled
      | _ \<Rightarrow> Inr [])"

text \<open>The comparison \<open>x < n\<close> with a number \<open>n\<close>: \<open>undefined\<close> becomes \<open>NaN\<close> and compares
  false, \<open>null\<close> becomes 0 and a boolean 0 or 1.\<close>

definition js_less :: "json option \<Rightarrow> int \<Rightarrow> failure + bool" where
  "js_less u n =
     (case u of
        None \<Rightarrow> Inr False
      | Some JNull \<Rightarrow> Inr (0 < n)
      | Some (JBool b) \<Rightarrow> Inr ((if b then 1 else 0) < n)
      | Some (JNum e) \<Rightarrow> Inr (e < n)
      | Some _ \<Rightarrow> Inl Unmodelled)"

subsection \<open>The platform: storage, clock, network, location\<close>

record request =
  target :: string
  verb :: string
  query :: "(string \<times> string) list"

datatype fetched = Failed | Body string

record reply =
  delay :: nat
  arrival :: fetched

type_synonym server = "request \<Rightarrow> reply"

text \<open>\<open>requests\<close> and \<open>writes\<close> record the calls of \<open>fetch\<close> and of \<open>localStorage.setItem\<close>.\<close>

record world =
  storage :: "string option"
  clock :: int
  requests :: "request list"
  writes :: "string list"

record location =
  href :: string
  hostname :: string
  pathname :: string

definition setItem :: "string \<Rightarrow> world \<Rightarrow> world" where
  "setItem text w = w\<lparr>storage := Some text, writes := writes w @ [text]\<rparr>"

definition apiRoot :: string where
  "apiRoot = ''http://www.dislike-everywhere.test/''"

subsection \<open>\<open>request\<close>\<close>

text \<open>The request is sent, the clock moves on by the time the reply takes, and
  \<open>response.json()\<close> parses the body.\<close>

definition request :: "server \<Rightarrow> string \<Rightarrow> string \<Rightarrow> (string \<times> string) list \<Rightarrow> world
    \<Rightarrow> (failure + json) \<times> world" where
  "request srv endpoint method body w =
     (let req = \<lparr>target = apiRoot @ endpoint, verb = method, query = body\<rparr>;
          rep = srv req;
          w1 = w\<lparr>clock := clock w + int (delay rep), requests := requests w @ [req]\<rparr>
      in (case arrival rep of
            Failed \<Rightarrow> (Inl NetworkError, w1)
          | Body text \<Rightarrow> (JSON_parse text, w1)))"

subsection \<open>\<open>getURL\<close>\<close>

text \<open>\<open>url.replace(/\/$/, "")\<close> removes one slash at the end; \<open>url.replace("www.", "")\<close>
  removes the first occurrence of \<open>www.\<close>, wherever it is.\<close>

definition strip_trailing_slash :: "string \<Rightarrow> string" where
  "strip_trailing_slash s = (if s \<noteq> [] \<and> last s = CHR ''/'' then butlast s else s)"

fun remove_first :: "string \<Rightarrow> string \<Rightarrow> string" where
  "remove_first pat [] = []"
| "remove_first pat (c # cs) =
     (case strip_prefix pat (c # cs) of
        Some r \<Rightarrow> r
      | None \<Rightarrow> c # remove_first pat cs)"

definition normalize_url :: "string \<Rightarrow> string" where
  "normalize_url s = remove_first ''www.'' (strip_trailing_slash s)"

definition getURL :: "location \<Rightarrow> string" where
  "getURL loc = normalize_url (hostname loc @ pathname loc)"

subsection \<open>The cache: \<open>getAllCache\<close>, \<open>getCached\<close>, \<open>setCache\<close>\<close>

definition getAllCache :: "world \<Rightarrow> failure + json" where
  "getAllCache w =
     (case storage w of
        None \<Rightarrow> Inr (JObj [])
      | Some text \<Rightarrow>
          if text = [] then Inr (JObj [])
          else and_then (JSON_parse text) (\<lambda>rating.
                 Inr (if truthy rating then rating else JObj [])))"

text \<open>The result \<open>false\<close> of \<open>getCached\<close> is \<open>None\<close>. When \<open>ratings[url]\<close> finds an inherited
  member, the three steps go through with it: a function or a prototype is truthy, its
  \<open>expires\<close> is \<open>undefined\<close>, which is not less than any number, and the spread copies nothing
  from it, as it has no enumerable property.\<close>

definition getCached :: "location \<Rightarrow> world \<Rightarrow> failure + json option" where
  "getCached loc w =
     (let url = getURL loc in
      and_then (getAllCache w) (\<lambda>ratings.
      if inherits ratings url
      then Inr (Some (JObj [(''cached'', JBool True), (''url'', JStr url)]))
      else
      and_then (js_get ratings url) (\<lambda>entry.
        case entry of
          None \<Rightarrow> Inr None
        | Some e \<Rightarrow>
            if \<not> truthy e then Inr None
            else
              and_then (js_get e ''expires'') (\<lambda>expires.
              and_then (js_less expires (clock w)) (\<lambda>expired.
                if expired then Inr None
                else
                  and_then (spread e) (\<lambda>kvs.
                    Inr (Some (JObj (AList.update ''url'' (JStr url)
                                      (AList.update ''cached'' (JBool True) kvs))))))))))"

definition ttl :: int where
  "ttl = 1000 * 60 * 60"

definition setCache :: "location \<Rightarrow> json \<Rightarrow> world \<Rightarrow> failure + world" where
  "setCache loc rating w =
     (let url = getURL loc in
      and_then (getAllCache w) (\<lambda>ratings.
      and_then (spread rating) (\<lambda>kvs.
      and_then (js_set ratings url (JObj (AList.update ''expires'' (JNum (clock w + ttl)) kvs)))
        (\<lambda>ratings'. Inr (setItem (JSON_stringify ratings') w)))))"

subsection \<open>\<open>getRating\<close>\<close>

definition getRating :: "server \<Rightarrow> location \<Rightarrow> world \<Rightarrow> (failure + json) \<times> world" where
  "getRating srv loc w =
     (case getCached loc w of
        Inl e \<Rightarrow> (Inl e, w)
      | Inr (Some cached) \<Rightarrow> (Inr cached, w)
      | Inr None \<Rightarrow>
          (case request srv ''rating'' ''GET'' [(''url'', href loc)] w of
             (Inl e, w1) \<Rightarrow> (Inl e, w1)
           | (Inr response, w1) \<Rightarrow>
               (case setCache loc response w1 of
                  Inl e \<Rightarrow> (Inl e, w1)
                | Inr w2 \<Rightarrow> (Inr response, w2))))"

subsection \<open>The session: \<open>update\<close>, \<open>like\<close>, \<open>dislike\<close>, \<open>load\<close>\<close>

text \<open>
  The fields \<open>this.likes\<close>, \<open>this.dislikes\<close> and \<open>this.total\<close>, and what the page shows: the text
  of the two counters and the \<open>value\<close> and \<open>max\<close> of the progress bar. A session starts from the
  markup of \<open>getElement\<close> (empty counters, \<open>value="0" max="100"\<close>) with \<open>this.total\<close> unset.
\<close>

record session =
  likes :: int
  dislikes :: int
  total :: "int option"
  likeCount :: string
  dislikeCount :: string
  progress_value :: int
  progress_max :: int

definition fresh :: "int \<Rightarrow> int \<Rightarrow> session" where
  "fresh l d = \<lparr>likes = l, dislikes = d, total = None, likeCount = [], dislikeCount = [],
                progress_value = 0, progress_max = 100\<rparr>"

text \<open>An operation of the session returns the exception that ended it, if any, with the
  session and the world as they are then. On integers \<open>Math.floor(likes / total)\<close> with a
  positive \<open>total\<close> is the quotient \<open>likes div total\<close>, which rounds down.\<close>

definition update :: "bool \<Rightarrow> location \<Rightarrow> session \<Rightarrow> world \<Rightarrow> failure option \<times> session \<times> world" where
  "update updateCache loc s w =
     (let t = likes s + dislikes s;
          value = (if t > 0 then likes s div t else 1);
          max = (if t > 0 then t else 2);
          s1 = s\<lparr>likeCount := show_int (likes s), dislikeCount := show_int (dislikes s),
                 total := Some t, progress_value := value, progress_max := max\<rparr>
      in if updateCache then
           (case setCache loc (JObj [(''likes'', JNum (likes s)), (''dislikes'', JNum (dislikes s))]) w of
              Inl e \<Rightarrow> (Some e, s1, w)
            | Inr w1 \<Rightarrow> (None, s1, w1))
         else (None, s1, w))"

definition like :: "server \<Rightarrow> location \<Rightarrow> session \<Rightarrow> world \<Rightarrow> failure option \<times> session \<times> world" where
  "like srv loc s w =
     (case request srv ''rate'' ''GET'' [(''url'', href loc), (''rating'', ''1'')] w of
        (Inl e, w1) \<Rightarrow> (Some e, s, w1)
      | (Inr response, w1) \<Rightarrow>
          (case js_get response ''error'' of
             Inl e \<Rightarrow> (Some e, s, w1)
           | Inr err \<Rightarrow>
               if truthy_opt err then (None, s, w1)
               else
                 (case js_get response ''status'' of
                    Inl e \<Rightarrow> (Some e, s, w1)
                  | Inr status \<Rightarrow>
                      (let s1 = (if status = Some (JStr ''success'')
                                 then s\<lparr>likes := likes s + 1\<rparr> else s);
                           s2 = (if status = Some (JStr ''updated'')
                                 then s1\<lparr>likes := likes s1 + 1, dislikes := dislikes s1 - 1\<rparr>
                                 else s1)
                       in update True loc s2 w1))))"

definition dislike :: "server \<Rightarrow> location \<Rightarrow> session \<Rightarrow> world \<Rightarrow> failure option \<times> session \<times> world" where
  "dislike srv loc s w =
     (case request srv ''rate'' ''GET'' [(''url'', href loc), (''rating'', ''0'')] w of
        (Inl e, w1) \<Rightarrow> (Some e, s, w1)
      | (Inr response, w1) \<Rightarrow>
          (case js_get response ''status'' of
             Inl e \<Rightarrow> (Some e, s, w1)
           | Inr status \<Rightarrow>
               (let s1 = (if status = Some (JStr ''success'')
                          then s\<lparr>dislikes := dislikes s + 1\<rparr> else s);
                    s2 = (if status = Some (JStr ''updated'')
                          then s1\<lparr>dislikes := dislikes s1 + 1, likes := likes s1 - 1\<rparr>
                          else s1)
                in update True loc s2 w1)))"

text \<open>\<open>load\<close> begins by awaiting the rating and assigning \<open>this.likes = rating.likes\<close> and
  \<open>this.dislikes = rating.dislikes\<close>, whatever these are: \<open>load_adopt\<close> is that first part, and
  returns the rating with the two values assigned (\<open>None\<close> is \<open>undefined\<close>).\<close>

definition load_adopt :: "server \<Rightarrow> location \<Rightarrow> world
    \<Rightarrow> (failure + json \<times> json option \<times> json option) \<times> world" where
  "load_adopt srv loc w =
     (case getRating srv loc w of
        (Inl e, w1) \<Rightarrow> (Inl e, w1)
      | (Inr rating, w1) \<Rightarrow>
          (and_then (js_get rating ''likes'') (\<lambda>l.
           and_then (js_get rating ''dislikes'') (\<lambda>d.
             Inr (rating, l, d))), w1))"

text \<open>\<open>load\<close> then hands the rating itself to \<open>update\<close> as its flag. Counts that are not both
  integers leave the typed session.\<close>

definition load :: "server \<Rightarrow> location \<Rightarrow> world \<Rightarrow> (failure + session) \<times> world" where
  "load srv loc w =
     (case load_adopt srv loc w of
        (Inl e, w1) \<Rightarrow> (Inl e, w1)
      | (Inr (rating, l, d), w1) \<Rightarrow>
          (case (l, d) of
             (Some (JNum l'), Some (JNum d')) \<Rightarrow>
               (case update (truthy rating) loc (fresh l' d') w1 of
                  (None, s, w2) \<Rightarrow> (Inr s, w2)
                | (Some e, s, w2) \<Rightarrow> (Inl e, w2))
           | _ \<Rightarrow> (Inl Unmodelled, w1)))"

subsection \<open>The requests the widget sends, and the world after a reply\<close>

definition rating_request :: "location \<Rightarrow> request" where
  "rating_request loc = \<lparr>target = apiRoot @ ''rating'', verb = ''GET'', query = [(''url'', href loc)]\<rparr>"



definition after_reply :: "request \<Rightarrow> nat \<Rightarrow> world \<Rightarrow> world" where
  "after_reply req t w = w\<lparr>clock := clock w + int t, requests := requests w @ [req]\<rparr>"

subsection \<open>Sequences of votes\<close>





subsection \<open>Occurrences of a pattern in a string\<close>

fun contains :: "string \<Rightarrow> string \<Rightarrow> bool" where
  "contains pat [] = (pat = [])"
| "contains pat (c # cs) = (strip_prefix pat (c # cs) \<noteq> None \<or> contains pat cs)"

subsection \<open>Inputs for the examples\<close>

definition example_page :: location where
  "example_page = \<lparr>href = ''https://www.example.com/path/?q=1#top'',
                    hostname = ''www.example.com'', pathname = ''/path/''\<rparr>"

text \<open>Two pages whose host is the name of a member of \<open>Object.prototype\<close>.\<close>

definition proto_page :: location where
  "proto_page = \<lparr>href = ''http://__proto__/'', hostname = ''__proto__'', pathname = ''/''\<rparr>"


text \<open>A world in which nothing has been fetched or written yet.\<close>

definition at_rest :: "string option \<Rightarrow> int \<Rightarrow> world" where
  "at_rest text now = \<lparr>storage = text, clock = now, requests = [], writes = []\<rparr>"

text \<open>A stored table with one entry for the example page, which expires at 1000.\<close>

definition stored_5_3 :: string where
  "stored_5_3 = ''{\"example.com/path\":{\"likes\":5,\"dislikes\":3,\"expires\":1000}}''"

text \<open>A server that answers every request with the same body after 120 ms, and one that
  cannot be reached.\<close>

definition answering :: "string \<Rightarrow> server" where
  "answering text = (\<lambda>req. \<lparr>delay = 120, arrival = Body text\<rparr>)"

definition unreachable :: server where
  "unreachable = (\<lambda>req. \<lparr>delay = 120, arrival = Failed\<rparr>)"

text \<open>The session that shows the tally \<open>l\<close>, \<open>d\<close>.\<close>

definition ready :: "int \<Rightarrow> int \<Rightarrow> session" where
  "ready l d = fst (snd (update False example_page (fresh l d) (at_rest None 0)))"

section \<open>Properties\<close>

subsection \<open>Sequencing\<close>

lemma and_then_Inl_iff:
  "and_then r f = Inl e \<longleftrightarrow> r = Inl e \<or> (\<exists>x. r = Inr x \<and> f x = Inl e)"
  by (cases r) auto

lemma and_then_Inr_iff:
  "and_then r f = Inr y \<longleftrightarrow> (\<exists>x. r = Inr x \<and> f x = Inr y)"
  by (cases r) auto

subsection \<open>\<open>JSON.parse\<close> inverts \<open>JSON.stringify\<close>\<close>

lemma below_10_cases:
  "(d::nat) < 10 \<Longrightarrow> d = 0 \<or> d = 1 \<or> d = 2 \<or> d = 3 \<or> d = 4 \<or> d = 5 \<or> d = 6 \<or> d = 7 \<or> d = 8 \<or> d = 9"
  by arith

lemma below_16_cases:
  "(d::nat) < 16 \<Longrightarrow> d = 0 \<or> d = 1 \<or> d = 2 \<or> d = 3 \<or> d = 4 \<or> d = 5 \<or> d = 6 \<or> d = 7 \<or> d = 8 \<or> d = 9
     \<or> d = 10 \<or> d = 11 \<or> d = 12 \<or> d = 13 \<or> d = 14 \<or> d = 15"
  by arith

lemma digit_char_props:
  assumes "d < 10"
  shows "is_digit (digit_char d)" and "(of_char (digit_char d) :: int) - 48 = int d"
    and "digit_char d = CHR ''0'' \<longleftrightarrow> d = 0"
  using below_10_cases [OF assms] by (auto simp: digit_char_def is_digit_def)

lemma hex_val_hex_char: "d < 16 \<Longrightarrow> hex_val (hex_char d) = Some d"
  using below_16_cases [of d] by (auto simp: hex_char_def hex_val_def)

lemma show_digits_nonempty: "show_digits n \<noteq> []"
  by (subst show_digits.simps) simp

lemma show_digits_all_digits: "0 \<le> n \<Longrightarrow> list_all is_digit (show_digits n)"
proof (induction n rule: show_digits.induct)
  case (1 n)
  show ?case
  proof (cases "n < 10")
    case True
    with "1.prems" have "nat n < 10" by simp
    then show ?thesis
      using True by (subst show_digits.simps) (simp add: digit_char_props)
  next
    case False
    then have "nat (n mod 10) < 10" by simp
    moreover have "list_all is_digit (show_digits (n div 10))"
      using "1.IH" False "1.prems" by simp
    ultimately show ?thesis
      using False by (subst show_digits.simps) (simp add: digit_char_props)
  qed
qed

lemma digits_val_show_digits:
  "0 \<le> n \<Longrightarrow>
   digits_val acc (show_digits n @ rest) = digits_val (acc * 10 ^ length (show_digits n) + n) rest"
proof (induction n arbitrary: acc rest rule: show_digits.induct)
  case (1 n)
  show ?case
  proof (cases "n < 10")
    case True
    with "1.prems" have d: "nat n < 10" by simp
    have eq: "show_digits n = [digit_char (nat n)]"
      using True by (subst show_digits.simps) simp
    show ?thesis
      using "1.prems" by (simp add: eq digit_char_props [OF d] mult.commute)
  next
    case False
    have d: "nat (n mod 10) < 10" by simp
    have eq: "show_digits n = show_digits (n div 10) @ [digit_char (nat (n mod 10))]"
      using False by (subst show_digits.simps) simp
    have "digits_val acc (show_digits n @ rest)
          = digits_val acc (show_digits (n div 10) @ (digit_char (nat (n mod 10)) # rest))"
      by (simp add: eq)
    also have "\<dots> = digits_val (acc * 10 ^ length (show_digits (n div 10)) + n div 10)
                       (digit_char (nat (n mod 10)) # rest)"
      using "1.IH" [OF False] False "1.prems" by simp
    also have "\<dots> = digits_val (10 * (acc * 10 ^ length (show_digits (n div 10)) + n div 10) + n mod 10) rest"
      by (simp add: digit_char_props [OF d])
    also have "10 * (acc * 10 ^ length (show_digits (n div 10)) + n div 10) + n mod 10
               = acc * 10 ^ length (show_digits n) + n"
      by (simp add: eq algebra_simps)
    finally show ?thesis .
  qed
qed

lemma digits_val_stop: "\<not> starts_with is_digit rest \<Longrightarrow> digits_val acc rest = (acc, rest)"
  by (cases rest) (auto simp: starts_with_def)

lemma show_digits_hd_nonzero: "1 \<le> n \<Longrightarrow> hd (show_digits n) \<noteq> CHR ''0''"
proof (induction n rule: show_digits.induct)
  case (1 n)
  show ?case
  proof (cases "n < 10")
    case True
    with "1.prems" have d: "nat n < 10" and "nat n \<noteq> 0" by simp_all
    then show ?thesis
      using True by (subst show_digits.simps) (simp add: digit_char_props)
  next
    case False
    then have "hd (show_digits (n div 10)) \<noteq> CHR ''0''"
      using "1.IH" by simp
    then show ?thesis
      using False by (subst show_digits.simps) (simp add: show_digits_nonempty)
  qed
qed

lemma show_digits_zero: "show_digits 0 = ''0''"
  by (subst show_digits.simps) (simp add: digit_char_def)

lemma num_endD:
  assumes "num_end rest"
  shows "\<not> starts_with is_digit rest"
    and "\<not> starts_with (\<lambda>c. c = CHR ''.'' \<or> c = CHR ''e'' \<or> c = CHR ''E'') rest"
  using assms by (cases rest; auto simp: num_end_def starts_with_def)+

lemma lex_number_digits:
  assumes "0 \<le> n" and "num_end rest"
  shows "digits_val 0 (show_digits n @ rest) = (n, rest)"
    and "starts_with is_digit (show_digits n @ rest)"
    and "\<not> (starts_with (\<lambda>c. c = CHR ''0'') (show_digits n @ rest)
            \<and> starts_with is_digit (tl (show_digits n @ rest)))"
proof -
  have stop: "\<not> starts_with is_digit rest"
    by (rule num_endD [OF assms(2)])
  show "digits_val 0 (show_digits n @ rest) = (n, rest)"
    using assms(1) by (simp add: digits_val_show_digits digits_val_stop [OF stop])
  obtain c cs where eq: "show_digits n = c # cs"
    using show_digits_nonempty [of n] by (cases "show_digits n") auto
  have "is_digit c"
    using show_digits_all_digits [OF assms(1)] by (simp add: eq)
  then show "starts_with is_digit (show_digits n @ rest)"
    by (simp add: eq starts_with_def)
  show "\<not> (starts_with (\<lambda>c. c = CHR ''0'') (show_digits n @ rest)
            \<and> starts_with is_digit (tl (show_digits n @ rest)))"
  proof (cases "n = 0")
    case True
    then show ?thesis using stop by (simp add: show_digits_zero starts_with_def)
  next
    case False
    then have "hd (show_digits n) \<noteq> CHR ''0''"
      using assms(1) by (intro show_digits_hd_nonzero) simp
    then show ?thesis by (simp add: eq starts_with_def)
  qed
qed

lemma lex_number_show_int:
  assumes "num_end rest"
  shows "lex_number (show_int i @ rest) = Inr (JNum i, rest)"
proof (cases "i < 0")
  case True
  then have pos: "0 \<le> - i" by simp
  obtain c cs where eq: "show_digits (- i) = c # cs"
    using show_digits_nonempty [of "- i"] by (cases "show_digits (- i)") auto
  have "starts_with is_digit (show_digits (- i) @ rest)"
    by (rule lex_number_digits(2) [OF pos assms])
  then have nodash: "is_digit c" by (simp add: eq starts_with_def)
  show ?thesis
    using True lex_number_digits [OF pos assms] num_endD [OF assms]
    by (simp add: lex_number_def show_int_def starts_with_def [of "\<lambda>c. c = CHR ''-''"] Let_def)
next
  case False
  then have pos: "0 \<le> i" by simp
  obtain c cs where eq: "show_digits i = c # cs"
    using show_digits_nonempty [of i] by (cases "show_digits i") auto
  have "list_all is_digit (show_digits i)"
    by (rule show_digits_all_digits [OF pos])
  then have "is_digit c" by (simp add: eq)
  then have nodash: "c \<noteq> CHR ''-''" by (auto simp: is_digit_def)
  have sw: "\<not> starts_with (\<lambda>c. c = CHR ''-'') (show_int i @ rest)"
    using False nodash by (simp add: show_int_def eq starts_with_def)
  show ?thesis
    using False lex_number_digits [OF pos assms] num_endD [OF assms] sw
    by (simp add: lex_number_def show_int_def Let_def)
qed

lemma lex_string_escape_char:
  "lex_string (escape_char c @ tail) =
     (case lex_string tail of Inl x \<Rightarrow> Inl x | Inr (s, r) \<Rightarrow> Inr (c # s, r))"
proof -
  consider (named) "c = CHR 0x22 \<or> c = CHR 0x5C \<or> c = CHR 0x08 \<or> c = CHR 0x0C \<or> c = CHR 0x0A
        \<or> c = CHR 0x0D \<or> c = CHR 0x09"
    | (control) "\<not> (c = CHR 0x22 \<or> c = CHR 0x5C \<or> c = CHR 0x08 \<or> c = CHR 0x0C \<or> c = CHR 0x0A
        \<or> c = CHR 0x0D \<or> c = CHR 0x09)" "(of_char c :: nat) < 32"
    | (plain) "c \<noteq> CHR 0x22" "c \<noteq> CHR 0x5C" "\<not> (of_char c :: nat) < 32"
    by blast
  then show ?thesis
  proof cases
    case named
    then show ?thesis
      by (auto simp: escape_char_def unescape_def)
  next
    case control
    let ?n = "of_char c :: nat"
    have hi: "hex_val (hex_char (?n div 16)) = Some (?n div 16)"
      using control(2) by (intro hex_val_hex_char) simp
    have lo: "hex_val (hex_char (?n mod 16)) = Some (?n mod 16)"
      by (intro hex_val_hex_char) simp
    have zero: "hex_val (CHR ''0'') = Some 0"
      by (simp add: hex_val_def)
    have "unicode_escape (CHR ''0'') (CHR ''0'') (hex_char (?n div 16)) (hex_char (?n mod 16)) = Inr c"
      using control(2) by (simp add: unicode_escape_def hi lo zero)
    then show ?thesis
      using control by (simp add: escape_char_def)
  next
    case plain
    then show ?thesis
      by (auto simp: escape_char_def)
  qed
qed

lemma lex_string_quote_body:
  "lex_string (concat (map escape_char s) @ CHR 0x22 # rest) = Inr (s, rest)"
  by (induction s) (simp_all add: lex_string_escape_char)

lemma skip_ws_Cons: "\<not> is_ws c \<Longrightarrow> skip_ws (c # cs) = c # cs"
  by (simp add: skip_ws_def)

lemma show_int_first: "\<exists>c cs. show_int i = c # cs \<and> (c = CHR ''-'' \<or> is_digit c)"
proof (cases "i < 0")
  case True
  then show ?thesis by (simp add: show_int_def)
next
  case False
  then have pos: "0 \<le> i" by simp
  obtain c cs where eq: "show_digits i = c # cs"
    using show_digits_nonempty [of i] by (cases "show_digits i") auto
  have "is_digit c"
    using show_digits_all_digits [OF pos] by (simp add: eq)
  then show ?thesis
    using False by (simp add: show_int_def eq)
qed

lemma value_startD:
  assumes "value_start c"
  shows "\<not> is_ws c" and "c \<noteq> CHR '']''" and "c \<noteq> CHR ''}''" and "c \<noteq> CHR '',''"
  using assms by (auto simp: value_start_def is_ws_def is_digit_def)

lemma JSON_stringify_first: "\<exists>c cs. JSON_stringify v = c # cs \<and> value_start c"
proof (cases v)
  case (JNum i)
  then show ?thesis
    using show_int_first [of i] by (auto simp: value_start_def)
qed (auto simp: value_start_def quote_def)

lemma JSON_stringify_nonempty: "0 < length (JSON_stringify v)"
  using JSON_stringify_first [of v] by auto

lemma parse_value_JNum:
  assumes "num_end rest"
  shows "parse_value (Suc n) (show_int i @ rest) = Inr (JNum i, rest)"
proof -
  obtain c cs where eq: "show_int i = c # cs" and c: "c = CHR ''-'' \<or> is_digit c"
    using show_int_first [of i] by auto
  have nows: "\<not> is_ws c" and other: "c \<noteq> CHR ''{''" "c \<noteq> CHR ''[''" "c \<noteq> CHR 0x22"
      "c \<noteq> CHR ''n''" "c \<noteq> CHR ''t''" "c \<noteq> CHR ''f''"
    using c by (auto simp: is_ws_def is_digit_def)
  have "parse_value (Suc n) (c # cs @ rest) = lex_number (c # cs @ rest)"
    using other by (simp add: skip_ws_Cons [OF nows])
  then show ?thesis
    using lex_number_show_int [OF assms, of i] by (simp add: eq)
qed

lemma num_end_delims [simp]:
  "num_end (CHR '','' # r)" "num_end (CHR '']'' # r)" "num_end (CHR ''}'' # r)" "num_end []"
  by (simp_all add: num_end_def starts_with_def is_digit_def)

lemma skip_ws_delims [simp]:
  "skip_ws (CHR '','' # r) = CHR '','' # r" "skip_ws (CHR '']'' # r) = CHR '']'' # r"
  "skip_ws (CHR ''}'' # r) = CHR ''}'' # r" "skip_ws (CHR '':'' # r) = CHR '':'' # r"
  "skip_ws (CHR 0x22 # r) = CHR 0x22 # r"
  by (simp_all add: skip_ws_def is_ws_def)

lemma parse_elems_stringify:
  assumes "\<And>x n rest. x \<in> set xs \<Longrightarrow> length (JSON_stringify x) < n \<Longrightarrow> num_end rest \<Longrightarrow>
             parse_value n (JSON_stringify x @ rest) = Inr (x, rest)"
    and "xs \<noteq> []"
    and "length (commas (map JSON_stringify xs)) + 1 < n"
  shows "parse_elems n acc (commas (map JSON_stringify xs) @ CHR '']'' # rest) = Inr (JArr (acc @ xs), rest)"
  using assms
proof (induction xs arbitrary: n acc)
  case Nil
  then show ?case by simp
next
  case (Cons x xs)
  obtain m where n: "n = Suc m"
    using Cons.prems(3) by (cases n) auto
  show ?case
  proof (cases xs)
    case Nil
    have "parse_value m (JSON_stringify x @ CHR '']'' # rest) = Inr (x, CHR '']'' # rest)"
      using Cons.prems(3) Nil n by (intro Cons.prems(1)) simp_all
    then show ?thesis
      using Nil n by simp
  next
    case (Cons y ys)
    let ?tail = "commas (map JSON_stringify xs) @ CHR '']'' # rest"
    have len: "length (JSON_stringify x) < m" "length (commas (map JSON_stringify xs)) + 1 < m"
      using Cons.prems(3) Cons n JSON_stringify_nonempty [of x] by simp_all
    have "parse_value m (JSON_stringify x @ CHR '','' # ?tail) = Inr (x, CHR '','' # ?tail)"
      using len by (intro Cons.prems(1)) simp_all
    moreover have "parse_elems m (acc @ [x]) ?tail = Inr (JArr ((acc @ [x]) @ xs), rest)"
      using len Cons Cons.prems(1) by (intro Cons.IH) simp_all
    ultimately show ?thesis
      using Cons n by simp
  qed
qed

lemma update_fresh: "k \<notin> fst ` set al \<Longrightarrow> AList.update k v al = al @ [(k, v)]"
  by (induction al) auto

lemma member_text_pair:
  "member_text (k, x) = CHR 0x22 # concat (map escape_char k) @ CHR 0x22 # CHR '':'' # JSON_stringify x"
  by (simp add: member_text_def quote_def)

lemma parse_members_stringify:
  assumes "\<And>k x n rest. (k, x) \<in> set kvs \<Longrightarrow> length (JSON_stringify x) < n \<Longrightarrow> num_end rest \<Longrightarrow>
             parse_value n (JSON_stringify x @ rest) = Inr (x, rest)"
    and "kvs \<noteq> []"
    and "distinct (map fst (acc @ kvs))"
    and "length (commas (map member_text kvs)) + 1 < n"
  shows "parse_members n acc (commas (map member_text kvs) @ CHR ''}'' # rest) = Inr (JObj (acc @ kvs), rest)"
  using assms
proof (induction kvs arbitrary: n acc)
  case Nil
  then show ?case by simp
next
  case (Cons kv kvs)
  obtain k x where kv: "kv = (k, x)"
    by (cases kv)
  obtain m where n: "n = Suc m"
    using Cons.prems(4) by (cases n) auto
  have fresh: "k \<notin> fst ` set acc"
    using Cons.prems(3) kv by auto
  have lex: "lex_string (concat (map escape_char k) @ CHR 0x22 # CHR '':'' # t) = Inr (k, CHR '':'' # t)" for t
    by (rule lex_string_quote_body)
  show ?case
  proof (cases kvs)
    case Nil
    have "length (JSON_stringify x) < m"
      using Cons.prems(4) Nil n kv by (simp add: member_text_pair)
    then have "parse_value m (JSON_stringify x @ CHR ''}'' # rest) = Inr (x, CHR ''}'' # rest)"
      using kv by (intro Cons.prems(1) [of k]) simp_all
    then show ?thesis
      using Nil n kv lex by (simp add: member_text_pair update_fresh [OF fresh])
  next
    case (Cons kv' kvs')
    let ?tail = "commas (map member_text kvs) @ CHR ''}'' # rest"
    have len: "length (JSON_stringify x) < m" "length (commas (map member_text kvs)) + 1 < m"
      using Cons.prems(4) Cons n kv by (simp_all add: member_text_pair)
    have "parse_value m (JSON_stringify x @ CHR '','' # ?tail) = Inr (x, CHR '','' # ?tail)"
      using len kv by (intro Cons.prems(1) [of k]) simp_all
    moreover have "parse_members m (acc @ [(k, x)]) ?tail = Inr (JObj ((acc @ [(k, x)]) @ kvs), rest)"
      using len Cons Cons.prems(1) Cons.prems(3) kv by (intro Cons.IH) auto
    ultimately show ?thesis
      using Cons n kv lex by (simp add: member_text_pair update_fresh [OF fresh])
  qed
qed

lemma members_as_text:
  "map (\<lambda>(k, v). quote k @ CHR '':'' # JSON_stringify v) kvs = map member_text kvs"
  by (simp add: member_text_def case_prod_beta)

lemma parse_value_stringify:
  "distinct_keys v \<Longrightarrow> length (JSON_stringify v) < n \<Longrightarrow> num_end rest \<Longrightarrow>
   parse_value n (JSON_stringify v @ rest) = Inr (v, rest)"
proof (induction v arbitrary: n rest)
  case JNull
  then obtain m where "n = Suc m" by (cases n) auto
  then show ?case
    by (simp add: skip_ws_def is_ws_def literal_def)
next
  case (JBool b)
  then obtain m where "n = Suc m" by (cases n) auto
  then show ?case
    by (simp add: skip_ws_def is_ws_def literal_def)
next
  case (JNum i)
  then obtain m where "n = Suc m" by (cases n) auto
  then show ?case
    using parse_value_JNum [OF JNum.prems(3), of m i] by (simp del: parse_value.simps)
next
  case (JStr s)
  then obtain m where "n = Suc m" by (cases n) auto
  then show ?case
    by (simp add: quote_def lex_string_quote_body)
next
  case (JArr xs)
  then obtain m where n: "n = Suc m" by (cases n) auto
  show ?case
  proof (cases "xs = []")
    case True
    then show ?thesis
      using n by (simp add: starts_with_def skip_ws_def is_ws_def)
  next
    case False
    obtain c cs where first: "commas (map JSON_stringify xs) = c # cs" and c: "value_start c"
    proof -
      obtain x xs' where xs: "xs = x # xs'"
        using False by (cases xs) auto
      obtain c cs where "JSON_stringify x = c # cs" "value_start c"
        using JSON_stringify_first [of x] by auto
      then have "\<exists>cs'. commas (map JSON_stringify xs) = c # cs'"
        using xs by (cases xs') auto
      then show ?thesis
        using that \<open>value_start c\<close> by auto
    qed
    have elems: "parse_elems m [] (commas (map JSON_stringify xs) @ CHR '']'' # rest)
                 = Inr (JArr ([] @ xs), rest)"
    proof (rule parse_elems_stringify [OF _ False])
      fix x k r
      assume "x \<in> set xs" "length (JSON_stringify x) < k" "num_end r"
      then show "parse_value k (JSON_stringify x @ r) = Inr (x, r)"
        using JArr.IH [of x k r] JArr.prems(1) by (simp add: list_all_iff)
    next
      show "length (commas (map JSON_stringify xs)) + 1 < m"
        using JArr.prems(2) n by simp
    qed
    have "parse_value (Suc m) (CHR ''['' # (c # cs) @ CHR '']'' # rest)
          = parse_elems m [] ((c # cs) @ CHR '']'' # rest)"
      using value_startD [OF c]
      by (simp add: skip_ws_def is_ws_def starts_with_def)
    then show ?thesis
      using elems n by (simp add: first)
  qed
next
  case (JObj kvs)
  then obtain m where n: "n = Suc m" by (cases n) auto
  show ?case
  proof (cases "kvs = []")
    case True
    then show ?thesis
      using n by (simp add: starts_with_def skip_ws_def is_ws_def)
  next
    case False
    obtain cs where first: "commas (map member_text kvs) = CHR 0x22 # cs"
    proof -
      obtain kv kvs' where kvs: "kvs = kv # kvs'"
        using False by (cases kvs) auto
      obtain k x where "kv = (k, x)" by (cases kv)
      then have "\<exists>cs'. commas (map member_text kvs) = CHR 0x22 # cs'"
        using kvs by (cases kvs') (auto simp: member_text_pair)
      then show ?thesis
        using that by auto
    qed
    have members: "parse_members m [] (commas (map member_text kvs) @ CHR ''}'' # rest)
                   = Inr (JObj ([] @ kvs), rest)"
    proof (rule parse_members_stringify [OF _ False])
      fix k x j r
      assume "(k, x) \<in> set kvs" "length (JSON_stringify x) < j" "num_end r"
      then show "parse_value j (JSON_stringify x @ r) = Inr (x, r)"
        using JObj.IH [of "(k, x)" x j r] JObj.prems(1) by (auto simp: list_all_iff)
    next
      show "distinct (map fst ([] @ kvs))"
        using JObj.prems(1) by simp
    next
      show "length (commas (map member_text kvs)) + 1 < m"
        using JObj.prems(2) n by (simp add: members_as_text)
    qed
    have "parse_value (Suc m) (CHR ''{'' # (CHR 0x22 # cs) @ CHR ''}'' # rest)
          = parse_members m [] ((CHR 0x22 # cs) @ CHR ''}'' # rest)"
      by (simp add: skip_ws_def is_ws_def starts_with_def)
    then show ?thesis
      using members n by (simp add: members_as_text first)
  qed
qed

lemma JSON_parse_stringify: "distinct_keys v \<Longrightarrow> JSON_parse (JSON_stringify v) = Inr v"
  using parse_value_stringify [of v "2 * length (JSON_stringify v) + 2" "[]"]
  by (simp add: JSON_parse_def skip_ws_def)

lemma lex_number_distinct_keys: "lex_number s = Inr (v, r) \<Longrightarrow> distinct_keys v"
  by (auto simp: lex_number_def Let_def split: if_splits prod.splits)

lemma literal_distinct_keys: "distinct_keys v \<Longrightarrow> literal word v s = Inr (v', r) \<Longrightarrow> distinct_keys v'"
  by (auto simp: literal_def split: option.splits)

lemma distinct_keys_update:
  "distinct (map fst al) \<Longrightarrow> list_all (\<lambda>kv. distinct_keys (snd kv)) al \<Longrightarrow> distinct_keys x \<Longrightarrow>
   distinct (map fst (AList.update k x al)) \<and> list_all (\<lambda>kv. distinct_keys (snd kv)) (AList.update k x al)"
  by (induction al) (auto simp: distinct_update AList.update_keys)

lemma parse_distinct_keys:
  "(\<forall>s v r. parse_value n s = Inr (v, r) \<longrightarrow> distinct_keys v)
   \<and> (\<forall>acc s v r. parse_elems n acc s = Inr (v, r) \<longrightarrow> list_all distinct_keys acc \<longrightarrow> distinct_keys v)
   \<and> (\<forall>acc s v r. parse_members n acc s = Inr (v, r) \<longrightarrow> distinct (map fst acc) \<longrightarrow>
        list_all (\<lambda>kv. distinct_keys (snd kv)) acc \<longrightarrow> distinct_keys v)"
proof (induction n)
  case 0
  show ?case by simp
next
  case (Suc n)
  have IHv: "distinct_keys v" if "parse_value n s = Inr (v, r)" for s v r
    using that Suc by blast
  have IHe: "distinct_keys v"
    if "parse_elems n acc s = Inr (v, r)" "list_all distinct_keys acc" for acc s v r
    using that Suc by blast
  have IHm: "distinct_keys v"
    if "parse_members n acc s = Inr (v, r)" "distinct (map fst acc)"
      "list_all (\<lambda>kv. distinct_keys (snd kv)) acc" for acc s v r
    using that Suc by blast
  have val: "distinct_keys v" if "parse_value (Suc n) s = Inr (v, r)" for s v r
    using that IHe [of "[]"] IHm [of "[]"]
    by (auto split: list.splits if_splits sum.splits
        dest: lex_number_distinct_keys literal_distinct_keys [rotated])
  have elems: "distinct_keys v"
    if run: "parse_elems (Suc n) acc s = Inr (v, r)" and ok: "list_all distinct_keys acc"
    for acc s v r
  proof -
    obtain x r1 where x: "parse_value n s = Inr (x, r1)"
      using run by (cases "parse_value n s") auto
    have acc: "list_all distinct_keys (acc @ [x])"
      using ok IHv [OF x] by simp
    show ?thesis
      using run x acc IHe [of "acc @ [x]"]
      by (auto split: list.splits if_splits)
  qed
  have members: "distinct_keys v"
    if run: "parse_members (Suc n) acc s = Inr (v, r)" and keys: "distinct (map fst acc)"
      and ok: "list_all (\<lambda>kv. distinct_keys (snd kv)) acc" for acc s v r
  proof -
    have "\<exists>k r1 x r2. parse_value n r1 = Inr (x, r2)
            \<and> ((\<exists>cs. parse_members n (AList.update k x acc) cs = Inr (v, r))
                 \<or> v = JObj (AList.update k x acc))"
      using run by (fastforce split: list.splits if_splits sum.splits)
    then obtain k r1 x r2 where x: "parse_value n r1 = Inr (x, r2)"
      and rest: "(\<exists>cs. parse_members n (AList.update k x acc) cs = Inr (v, r))
                 \<or> v = JObj (AList.update k x acc)"
      by blast
    have acc: "distinct (map fst (AList.update k x acc))"
      "list_all (\<lambda>kv. distinct_keys (snd kv)) (AList.update k x acc)"
      using distinct_keys_update [OF keys ok IHv [OF x], of k] by simp_all
    show ?thesis
      using rest acc IHm [of "AList.update k x acc"] by auto
  qed
  show ?case
    using val elems members by blast
qed

lemma JSON_parse_distinct_keys:
  assumes "JSON_parse s = Inr v"
  shows "distinct_keys v"
proof -
  have "distinct_keys x" if "parse_value (2 * length s + 2) t = Inr (x, r)" for t x r
    using that parse_distinct_keys [of "2 * length s + 2"] by blast
  then show ?thesis
    using assms
    by (cases "parse_value (2 * length s + 2) s")
      (auto simp del: parse_value.simps simp: JSON_parse_def split: if_splits)
qed

subsection \<open>The bound of the parser\<close>

text \<open>Every call of the parser that returns has consumed some of the text, so the bound that
  \<open>JSON_parse\<close> starts with is not what ends a parse: any larger bound gives the same result.\<close>

lemma length_skip_ws: "length (skip_ws s) \<le> length s"
  by (simp add: skip_ws_def length_dropWhile_le)

lemma skip_ws_shorter: "skip_ws s = c # cs \<Longrightarrow> length cs < length s"
  using length_skip_ws [of s] by simp

lemma lex_string_shorter: "lex_string s = Inr (k, r) \<Longrightarrow> length r < length s"
proof (induction s arbitrary: k r rule: lex_string.induct)
  case 1
  then show ?case by simp
next
  case (2 c cs)
  show ?case
    using "2.prems" "2.IH"
    by (fastforce split: if_splits list.splits sum.splits option.splits)
qed

lemma digits_val_shorter: "digits_val acc s = (n, r) \<Longrightarrow> length r \<le> length s"
  by (induction s arbitrary: acc) (auto split: if_splits intro: le_SucI)

lemma lex_number_shorter: "lex_number s = Inr (v, r) \<Longrightarrow> length r < length s"
proof -
  assume run: "lex_number s = Inr (v, r)"
  let ?s1 = "if starts_with (\<lambda>c. c = CHR ''-'') s then tl s else s"
  have digit: "starts_with is_digit ?s1"
    using run by (auto simp: lex_number_def Let_def split: if_splits)
  then obtain c cs where s1: "?s1 = c # cs" and c: "is_digit c"
    by (cases ?s1) (auto simp: starts_with_def)
  obtain n where val: "digits_val 0 ?s1 = (n, r)"
    using run by (auto simp: lex_number_def Let_def split: if_splits prod.splits)
  have "digits_val (10 * 0 + ((of_char c :: int) - 48)) cs = (n, r)"
    using val c unfolding s1 by simp
  then have "length r \<le> length cs"
    by (rule digits_val_shorter)
  then have "length r < length ?s1"
    unfolding s1 by simp
  moreover have "length ?s1 \<le> length s"
    by simp
  ultimately show ?thesis by linarith
qed

lemma strip_prefix_shorter: "strip_prefix p s = Some r \<Longrightarrow> length r \<le> length s"
  by (induction p s rule: strip_prefix.induct) (auto split: if_splits intro: le_SucI)

lemma literal_shorter: "literal word v s = Inr (v', r) \<Longrightarrow> length r \<le> length s"
  by (auto simp: literal_def split: option.splits dest: strip_prefix_shorter)

lemma parse_shorter:
  "(\<forall>s v r. parse_value n s = Inr (v, r) \<longrightarrow> length r < length s)
   \<and> (\<forall>acc s v r. parse_elems n acc s = Inr (v, r) \<longrightarrow> length r < length s)
   \<and> (\<forall>acc s v r. parse_members n acc s = Inr (v, r) \<longrightarrow> length r < length s)"
proof (induction n)
  case 0
  show ?case by simp
next
  case (Suc n)
  have IHv: "length r < length s" if "parse_value n s = Inr (v, r)" for s v r
    using that Suc by blast
  have IHe: "length r < length s" if "parse_elems n acc s = Inr (v, r)" for acc s v r
    using that Suc by blast
  have IHm: "length r < length s" if "parse_members n acc s = Inr (v, r)" for acc s v r
    using that Suc by blast
  have val: "length r < length s" if run: "parse_value (Suc n) s = Inr (v, r)" for s v r
  proof -
    obtain c cs where ws: "skip_ws s = c # cs"
      using run by (cases "skip_ws s") auto
    have cs: "length cs < length s"
      by (rule skip_ws_shorter [OF ws])
    have tl: "length (tl (skip_ws cs)) \<le> length cs"
      using length_skip_ws [of cs] by simp
    have "length r \<le> length cs"
      using run ws tl IHe [of "[]" cs v r] IHm [of "[]" cs v r]
        lex_number_shorter [of "c # cs" v r]
      by (auto split: if_splits sum.splits
          dest!: lex_string_shorter literal_shorter)
    then show ?thesis
      using cs by simp
  qed
  have elems: "length r < length s" if run: "parse_elems (Suc n) acc s = Inr (v, r)" for acc s v r
  proof -
    obtain x r1 where x: "parse_value n s = Inr (x, r1)"
      using run by (cases "parse_value n s") auto
    obtain c cs where ws: "skip_ws r1 = c # cs"
      using run x by (cases "skip_ws r1") auto
    have "length r \<le> length cs"
      using run x ws IHe [of "acc @ [x]" cs v r] by (auto split: if_splits)
    then show ?thesis
      using IHv [OF x] skip_ws_shorter [OF ws] by simp
  qed
  have members: "length r < length s" if run: "parse_members (Suc n) acc s = Inr (v, r)" for acc s v r
  proof -
    obtain q s1 where ws: "skip_ws s = q # s1"
      using run by (cases "skip_ws s") auto
    obtain k r0 where key: "lex_string s1 = Inr (k, r0)"
      using run ws by (cases "lex_string s1") (auto split: if_splits)
    obtain colon r1 where ws1: "skip_ws r0 = colon # r1"
      using run ws key by (cases "skip_ws r0") (auto split: if_splits)
    obtain x r2 where x: "parse_value n r1 = Inr (x, r2)"
      using run ws key ws1 by (cases "parse_value n r1") (auto split: if_splits)
    obtain c cs where ws2: "skip_ws r2 = c # cs"
      using run ws key ws1 x by (cases "skip_ws r2") (auto split: if_splits)
    have "length r \<le> length cs"
      using run ws key ws1 x ws2 IHm [of "AList.update k x acc" cs v r] by (auto split: if_splits)
    then show ?thesis
      using skip_ws_shorter [OF ws] lex_string_shorter [OF key] skip_ws_shorter [OF ws1]
        IHv [OF x] skip_ws_shorter [OF ws2]
      by simp
  qed
  show ?case
    using val elems members by blast
qed

lemma parse_value_shorter: "parse_value n s = Inr (v, r) \<Longrightarrow> length r < length s"
  using parse_shorter [of n] by blast

lemma parse_fuel:
  "(\<forall>m s. 2 * length s + 1 \<le> n \<longrightarrow> 2 * length s + 1 \<le> m \<longrightarrow> parse_value n s = parse_value m s)
   \<and> (\<forall>m acc s. 2 * length s + 2 \<le> n \<longrightarrow> 2 * length s + 2 \<le> m \<longrightarrow>
        parse_elems n acc s = parse_elems m acc s)
   \<and> (\<forall>m acc s. 2 * length s + 2 \<le> n \<longrightarrow> 2 * length s + 2 \<le> m \<longrightarrow>
        parse_members n acc s = parse_members m acc s)"
proof (induction n)
  case 0
  show ?case by simp
next
  case (Suc n)
  have IHv: "parse_value n s = parse_value m s"
    if "2 * length s + 1 \<le> n" "2 * length s + 1 \<le> m" for m s
    using that Suc by blast
  have IHe: "parse_elems n acc s = parse_elems m acc s"
    if "2 * length s + 2 \<le> n" "2 * length s + 2 \<le> m" for m acc s
    using that Suc by blast
  have IHm: "parse_members n acc s = parse_members m acc s"
    if "2 * length s + 2 \<le> n" "2 * length s + 2 \<le> m" for m acc s
    using that Suc by blast
  have val: "parse_value (Suc n) s = parse_value m s"
    if n: "2 * length s + 1 \<le> Suc n" and m: "2 * length s + 1 \<le> m" for m s
  proof -
    obtain m' where m': "m = Suc m'"
      using m by (cases m) auto
    show ?thesis
    proof (cases "skip_ws s")
      case Nil
      then show ?thesis
        by (simp only: m' parse_value.simps list.case)
    next
      case (Cons c cs)
      have "length cs < length s"
        by (rule skip_ws_shorter [OF Cons])
      then have bounds: "2 * length cs + 2 \<le> n" "2 * length cs + 2 \<le> m'"
        using n m m' by simp_all
      have calls: "parse_members n [] cs = parse_members m' [] cs"
        "parse_elems n [] cs = parse_elems m' [] cs"
        by (rule IHm [OF bounds], rule IHe [OF bounds])
      show ?thesis
        by (simp only: m' parse_value.simps Cons list.case calls)
    qed
  qed
  have after_value: "(case skip_ws r1 of
             [] \<Rightarrow> Inl SyntaxError
           | c # cs \<Rightarrow>
               if c = CHR '','' then parse_elems n (acc @ [x]) cs
               else if c = CHR '']'' then Inr (JArr (acc @ [x]), cs)
               else Inl SyntaxError)
         = (case skip_ws r1 of
             [] \<Rightarrow> Inl SyntaxError
           | c # cs \<Rightarrow>
               if c = CHR '','' then parse_elems m' (acc @ [x]) cs
               else if c = CHR '']'' then Inr (JArr (acc @ [x]), cs)
               else Inl SyntaxError)"
    if "2 * length r1 \<le> n" "2 * length r1 \<le> m'" for r1 m' acc x
  proof (cases "skip_ws r1")
    case Nil
    then show ?thesis by (simp only: list.case)
  next
    case (Cons c cs)
    have "length cs < length r1"
      by (rule skip_ws_shorter [OF Cons])
    then have "2 * length cs + 2 \<le> n" "2 * length cs + 2 \<le> m'"
      using that by simp_all
    then have "parse_elems n (acc @ [x]) cs = parse_elems m' (acc @ [x]) cs"
      by (rule IHe)
    then show ?thesis
      by (simp only: Cons list.case)
  qed
  have elems: "parse_elems (Suc n) acc s = parse_elems m acc s"
    if n: "2 * length s + 2 \<le> Suc n" and m: "2 * length s + 2 \<le> m" for m acc s
  proof -
    obtain m' where m': "m = Suc m'"
      using m by (cases m) auto
    have same: "parse_value n s = parse_value m' s"
      using n m m' by (intro IHv) simp_all
    show ?thesis
    proof (cases "parse_value m' s")
      case (Inl e)
      then show ?thesis
        by (simp only: m' parse_elems.simps same sum.case)
    next
      case (Inr vr)
      obtain x r1 where vr: "vr = (x, r1)" by (cases vr)
      have "length r1 < length s"
        using parse_value_shorter [of m' s x r1] Inr vr by simp
      then have "2 * length r1 \<le> n" "2 * length r1 \<le> m'"
        using n m m' by simp_all
      then show ?thesis
        using after_value [of r1 m' acc x]
        by (simp only: m' parse_elems.simps same Inr vr sum.case prod.case)
    qed
  qed
  have after_member: "(case skip_ws r2 of
                  [] \<Rightarrow> Inl SyntaxError
                | c # cs \<Rightarrow>
                    if c = CHR '','' then parse_members n (AList.update k x acc) cs
                    else if c = CHR ''}'' then Inr (JObj (AList.update k x acc), cs)
                    else Inl SyntaxError)
         = (case skip_ws r2 of
                  [] \<Rightarrow> Inl SyntaxError
                | c # cs \<Rightarrow>
                    if c = CHR '','' then parse_members m' (AList.update k x acc) cs
                    else if c = CHR ''}'' then Inr (JObj (AList.update k x acc), cs)
                    else Inl SyntaxError)"
    if "2 * length r2 \<le> n" "2 * length r2 \<le> m'" for r2 m' acc k x
  proof (cases "skip_ws r2")
    case Nil
    then show ?thesis by (simp only: list.case)
  next
    case (Cons c cs)
    have "length cs < length r2"
      by (rule skip_ws_shorter [OF Cons])
    then have "2 * length cs + 2 \<le> n" "2 * length cs + 2 \<le> m'"
      using that by simp_all
    then have "parse_members n (AList.update k x acc) cs = parse_members m' (AList.update k x acc) cs"
      by (rule IHm)
    then show ?thesis
      by (simp only: Cons list.case)
  qed
  have member_value: "(case parse_value n r1 of
             Inl e \<Rightarrow> Inl e
           | Inr (v, r2) \<Rightarrow>
               (case skip_ws r2 of
                  [] \<Rightarrow> Inl SyntaxError
                | c # cs \<Rightarrow>
                    if c = CHR '','' then parse_members n (AList.update k v acc) cs
                    else if c = CHR ''}'' then Inr (JObj (AList.update k v acc), cs)
                    else Inl SyntaxError))
         = (case parse_value m' r1 of
             Inl e \<Rightarrow> Inl e
           | Inr (v, r2) \<Rightarrow>
               (case skip_ws r2 of
                  [] \<Rightarrow> Inl SyntaxError
                | c # cs \<Rightarrow>
                    if c = CHR '','' then parse_members m' (AList.update k v acc) cs
                    else if c = CHR ''}'' then Inr (JObj (AList.update k v acc), cs)
                    else Inl SyntaxError))"
    if r1: "2 * length r1 + 1 \<le> n" "2 * length r1 + 1 \<le> m'" for r1 m' acc k
  proof -
    have same: "parse_value n r1 = parse_value m' r1"
      using r1 by (rule IHv)
    show ?thesis
    proof (cases "parse_value m' r1")
      case (Inl e)
      then show ?thesis
        by (simp only: same sum.case)
    next
      case (Inr vr)
      obtain x r2 where vr: "vr = (x, r2)" by (cases vr)
      have "length r2 < length r1"
        using parse_value_shorter [of m' r1 x r2] Inr vr by simp
      then have "2 * length r2 \<le> n" "2 * length r2 \<le> m'"
        using r1 by simp_all
      then show ?thesis
        using after_member [of r2 m' k x acc]
        by (simp only: same Inr vr sum.case prod.case)
    qed
  qed
  have members: "parse_members (Suc n) acc s = parse_members m acc s"
    if n: "2 * length s + 2 \<le> Suc n" and m: "2 * length s + 2 \<le> m" for m acc s
  proof -
    obtain m' where m': "m = Suc m'"
      using m by (cases m) auto
    show ?thesis
    proof (cases "skip_ws s")
      case Nil
      then show ?thesis
        by (simp only: m' parse_members.simps list.case)
    next
      case (Cons q s1)
      have s1: "length s1 < length s"
        by (rule skip_ws_shorter [OF Cons])
      show ?thesis
      proof (cases "lex_string s1")
        case (Inl e)
        then show ?thesis
          by (simp only: m' parse_members.simps Cons list.case sum.case)
      next
        case (Inr kr)
        obtain k r0 where kr: "kr = (k, r0)" by (cases kr)
        have r0: "length r0 < length s1"
          using lex_string_shorter [of s1 k r0] Inr kr by simp
        show ?thesis
        proof (cases "skip_ws r0")
          case Nil
          then show ?thesis
            by (simp only: m' parse_members.simps \<open>skip_ws s = q # s1\<close> Inr kr list.case sum.case prod.case)
        next
          case (Cons colon r1)
          have "length r1 < length r0"
            by (rule skip_ws_shorter [OF Cons])
          then have "2 * length r1 + 1 \<le> n" "2 * length r1 + 1 \<le> m'"
            using r0 s1 n m m' by simp_all
          then show ?thesis
            using member_value [of r1 m' k acc]
            by (simp only: m' parse_members.simps \<open>skip_ws s = q # s1\<close> Inr kr Cons
                list.case sum.case prod.case)
        qed
      qed
    qed
  qed
  show ?case
    using val elems members by blast
qed

lemma JSON_parse_bound:
  assumes "2 * length s + 2 \<le> n"
  shows "parse_value n s = parse_value (2 * length s + 2) s"
proof -
  have "2 * length s + 1 \<le> n" "2 * length s + 1 \<le> 2 * length s + 2"
    using assms by linarith+
  then show ?thesis
    using parse_fuel [of n] by blast
qed

subsection \<open>Reading the whole table: \<open>getAllCache\<close>\<close>

text \<open>
  C3, as the spec states it, fails. \<open>getAllCache\<close> has no handler around \<open>JSON.parse\<close>: stored
  text that does not parse makes it throw, here on the text \<open>{\<close>.
\<close>

theorem getAllCache_unparsable_counterexample:
  "getAllCache (at_rest (Some ''{'') 0) = Inl SyntaxError"
  by code_simp

text \<open>
  C3, amended. \<open>getAllCache\<close> returns the empty table when nothing or the empty text is
  stored, and when the stored text parses to a falsy value; it returns the parsed value when
  that is truthy; and it fails exactly when the stored text is not empty and \<open>JSON.parse\<close>
  fails on it, with that failure.
\<close>

theorem getAllCache_cases:
  "(storage w = None \<or> storage w = Some [] \<longrightarrow> getAllCache w = Inr (JObj []))
   \<and> (storage w = Some stored \<and> stored \<noteq> [] \<and> JSON_parse stored = Inl e \<longrightarrow> getAllCache w = Inl e)
   \<and> (storage w = Some stored \<and> stored \<noteq> [] \<and> JSON_parse stored = Inr v \<longrightarrow>
        getAllCache w = Inr (if truthy v then v else JObj []))
   \<and> (getAllCache w = Inl e \<longrightarrow> (\<exists>t. storage w = Some t \<and> t \<noteq> [] \<and> JSON_parse t = Inl e))"
  by (auto simp: getAllCache_def and_then_Inl_iff split: option.splits if_splits)

text \<open>
  C3, amended, on four stored values: nothing, the text \<open>{\<close>, a table, and \<open>null\<close>.
\<close>

theorem getAllCache_cases_witness:
  "getAllCache (at_rest None 0) = Inr (JObj [])
   \<and> getAllCache (at_rest (Some ''{'') 0) = Inl SyntaxError
   \<and> getAllCache (at_rest (Some ''{\"a\":1}'') 0) = Inr (JObj [(''a'', JNum 1)])
   \<and> getAllCache (at_rest (Some ''null'') 0) = Inr (JObj [])"
proof -
  have p1: "JSON_parse ''{'' = Inl SyntaxError"
    by code_simp
  have p2: "JSON_parse ''{\"a\":1}'' = Inr (JObj [(''a'', JNum 1)])"
    by code_simp
  have p3: "JSON_parse ''null'' = Inr JNull"
    by code_simp
  show ?thesis
    using getAllCache_cases [of "at_rest None 0"]
      getAllCache_cases [of "at_rest (Some ''{'') 0" "''{''" SyntaxError] p1
      getAllCache_cases [of "at_rest (Some ''{\"a\":1}'') 0" "''{\"a\":1}''" _ "JObj [(''a'', JNum 1)]"] p2
      getAllCache_cases [of "at_rest (Some ''null'') 0" "''null''" _ JNull] p3
    by (simp add: at_rest_def truthy_def)
qed

subsection \<open>Facts about the cache\<close>

lemma getAllCache_distinct_keys: "getAllCache w = Inr v \<Longrightarrow> distinct_keys v"
  by (auto simp: getAllCache_def and_then_Inr_iff split: option.splits if_splits
      dest: JSON_parse_distinct_keys)


lemma getAllCache_clock [simp]: "getAllCache (w\<lparr>clock := c\<rparr>) = getAllCache w"
  by (simp add: getAllCache_def)

lemma getAllCache_requests [simp]: "getAllCache (w\<lparr>requests := r\<rparr>) = getAllCache w"
  by (simp add: getAllCache_def)

lemma getAllCache_setItem:
  assumes "distinct_keys (JObj tbl)"
  shows "getAllCache (setItem (JSON_stringify (JObj tbl)) w) = Inr (JObj tbl)"
proof -
  have parsed: "JSON_parse (JSON_stringify (JObj tbl)) = Inr (JObj tbl)"
    by (rule JSON_parse_stringify [OF assms])
  have "JSON_stringify (JObj tbl) \<noteq> []"
    by simp
  then show ?thesis
    using parsed
    by (simp add: getAllCache_def setItem_def truthy_def del: JSON_stringify.simps)
qed

lemma distinct_keys_entry:
  "distinct_keys (JObj kvs) \<Longrightarrow> distinct_keys x \<Longrightarrow> distinct_keys (JObj (AList.update k x kvs))"
  using distinct_keys_update [of kvs x k] by simp

text \<open>
  The names the code itself reads (\<open>likes\<close>, \<open>dislikes\<close>, \<open>expires\<close>, \<open>error\<close>, \<open>status\<close>) are not
  names of inherited members, and an own property hides an inherited one.
\<close>

lemma inherits_fields [simp]:
  "\<not> inherits v ''likes''" "\<not> inherits v ''dislikes''" "\<not> inherits v ''expires''"
  "\<not> inherits v ''error''" "\<not> inherits v ''status''"
  by (cases v; simp add: inherits_def object_members_def number_members_def)+

lemma inherits_own: "map_of kvs k = Some x \<Longrightarrow> \<not> inherits (JObj kvs) k"
  by (simp add: inherits_def)

lemma inherits_member: "inherits (JObj kvs) k \<longleftrightarrow> map_of kvs k = None \<and> k \<in> set object_members"
  by (simp add: inherits_def)

lemma proto_member: "''__proto__'' \<in> set object_members"
  by (simp add: object_members_def)

lemma js_get_object: "\<not> inherits (JObj kvs) k \<Longrightarrow> js_get (JObj kvs) k = Inr (map_of kvs k)"
  by (simp add: js_get_def)


lemma setCache_table:
  assumes "getAllCache w = Inr (JObj tbl)" and "spread rating = Inr kvs"
    and "getURL loc \<noteq> ''__proto__'' \<or> map_of tbl (getURL loc) \<noteq> None"
  shows "setCache loc rating w =
           Inr (setItem (JSON_stringify (JObj (AList.update (getURL loc)
                  (JObj (AList.update ''expires'' (JNum (clock w + ttl)) kvs)) tbl))) w)"
  using assms by (auto simp: setCache_def js_set_def Let_def simp del: JSON_stringify.simps)

lemma spread_distinct_keys: "distinct_keys v \<Longrightarrow> spread v = Inr kvs \<Longrightarrow> distinct_keys (JObj kvs)"
  by (cases v) (auto simp: spread_def)

lemma getCached_found:
  assumes "getAllCache w = Inr (JObj tbl)"
    and "map_of tbl (getURL loc) = Some (JObj kvs)"
    and "map_of kvs ''expires'' = Some (JNum e)"
  shows "getCached loc w =
           (if e < clock w then Inr None
            else Inr (Some (JObj (AList.update ''url'' (JStr (getURL loc))
                                   (AList.update ''cached'' (JBool True) kvs)))))"
  using assms inherits_own [OF assms(2)]
  by (simp add: getCached_def js_get_def js_less_def truthy_def spread_def Let_def)

lemma getCached_absent:
  assumes "getAllCache w = Inr (JObj tbl)" and "map_of tbl (getURL loc) = None"
    and "getURL loc \<notin> set object_members"
  shows "getCached loc w = Inr None"
  using assms by (simp add: getCached_def js_get_def inherits_def Let_def)


text \<open>
  After a miss on a table, the assignment of \<open>setCache\<close> stores an own property: the page's key
  is not an inherited name that the table does not own.
\<close>

lemma miss_not_inherited:
  assumes "getAllCache w = Inr ratings" and "getCached loc w = Inr None"
  shows "\<not> inherits ratings (getURL loc)"
  using assms by (auto simp: getCached_def Let_def)

lemma miss_stores:
  assumes "getAllCache w = Inr (JObj tbl)" and "getCached loc w = Inr None"
  shows "getURL loc \<noteq> ''__proto__'' \<or> map_of tbl (getURL loc) \<noteq> None"
  using miss_not_inherited [OF assms] proto_member by (auto simp: inherits_def)

lemma ttl_value: "ttl = 3600000"
  by (simp add: ttl_def)

lemma setItem_clock [simp]: "clock (setItem text w) = clock w"
  by (simp add: setItem_def)

lemma setItem_simps [simp]:
  "storage (setItem text w) = Some text"
  "writes (setItem text w) = writes w @ [text]"
  "requests (setItem text w) = requests w"
  by (simp_all add: setItem_def)

lemma after_reply_simps [simp]:
  "storage (after_reply req t w) = storage w"
  "writes (after_reply req t w) = writes w"
  "clock (after_reply req t w) = clock w + int t"
  "requests (after_reply req t w) = requests w @ [req]"
  "getAllCache (after_reply req t w) = getAllCache w"
  by (simp_all add: after_reply_def)

text \<open>
  What the table holds for the page after \<open>setCache\<close>.
\<close>

lemma setCache_then_table:
  assumes "getAllCache w = Inr (JObj tbl)" and "spread rating = Inr kvs" and "distinct_keys rating"
    and "getURL loc \<noteq> ''__proto__'' \<or> map_of tbl (getURL loc) \<noteq> None"
  shows "\<exists>w'. setCache loc rating w = Inr w'
           \<and> w' = setItem (JSON_stringify (JObj (AList.update (getURL loc)
                  (JObj (AList.update ''expires'' (JNum (clock w + ttl)) kvs)) tbl))) w
           \<and> getAllCache w' = Inr (JObj (AList.update (getURL loc)
                  (JObj (AList.update ''expires'' (JNum (clock w + ttl)) kvs)) tbl))"
proof -
  have "distinct_keys (JObj tbl)"
    by (rule getAllCache_distinct_keys [OF assms(1)])
  moreover have "distinct_keys (JObj (AList.update ''expires'' (JNum (clock w + ttl)) kvs))"
    using spread_distinct_keys [OF assms(3,2)] by (intro distinct_keys_entry) simp_all
  ultimately have "distinct_keys (JObj (AList.update (getURL loc)
                  (JObj (AList.update ''expires'' (JNum (clock w + ttl)) kvs)) tbl))"
    by (rule distinct_keys_entry)
  then show ?thesis
    using setCache_table [OF assms(1,2,4)] getAllCache_setItem by simp
qed


lemma getURL_example_page: "getURL example_page = ''example.com/path''"
  by code_simp

lemma example_page_not_member: "getURL example_page \<notin> set object_members"
  by (simp add: getURL_example_page object_members_def)

lemma JSON_parse_stored_5_3:
  "JSON_parse stored_5_3 =
     Inr (JObj [(''example.com/path'',
                 JObj [(''likes'', JNum 5), (''dislikes'', JNum 3), (''expires'', JNum 1000)])])"
  by code_simp

lemma getAllCache_stored_5_3:
  "getAllCache (at_rest (Some stored_5_3) now) =
     Inr (JObj [(''example.com/path'',
                 JObj [(''likes'', JNum 5), (''dislikes'', JNum 3), (''expires'', JNum 1000)])])"
proof -
  have "stored_5_3 \<noteq> []"
    by (simp add: stored_5_3_def)
  then show ?thesis
    by (simp add: getAllCache_def at_rest_def JSON_parse_stored_5_3 truthy_def)
qed

lemma JSON_parse_5_3:
  "JSON_parse ''{\"likes\":5,\"dislikes\":3}'' = Inr (JObj [(''likes'', JNum 5), (''dislikes'', JNum 3)])"
  by code_simp

subsection \<open>Reading one entry: \<open>getCached\<close>\<close>

text \<open>
  C5, as the spec states it, fails at the boundary. The test of \<open>getCached\<close> is
  \<open>expires < Date.now()\<close>: at the instant \<open>now = expires\<close> the entry is still returned.
\<close>

theorem getCached_boundary_counterexample:
  "getCached example_page (at_rest (Some stored_5_3) 1000) =
     Inr (Some (JObj [(''likes'', JNum 5), (''dislikes'', JNum 3), (''expires'', JNum 1000),
                      (''cached'', JBool True), (''url'', JStr ''example.com/path'')]))"
  by code_simp

text \<open>
  C5, amended. For every page and every stored entry with a number \<open>expires\<close>, \<open>getCached\<close>
  returns nothing when \<open>expires < now\<close>, and returns the entry (with the marks \<open>cached\<close> and
  \<open>url\<close>) when \<open>now \<le> expires\<close>, the boundary included. \<open>getCached\<close> is a function of the page
  and the world that returns a value and no world: a read, expired or not, writes nothing.
\<close>

theorem getCached_expiry:
  assumes "getAllCache w = Inr (JObj tbl)"
    and "map_of tbl (getURL loc) = Some (JObj kvs)"
    and "map_of kvs ''expires'' = Some (JNum e)"
  shows "(e < clock w \<longrightarrow> getCached loc w = Inr None)
       \<and> (clock w \<le> e \<longrightarrow>
            getCached loc w =
              Inr (Some (JObj (AList.update ''url'' (JStr (getURL loc))
                               (AList.update ''cached'' (JBool True) kvs)))))"
  using getCached_found [OF assms] by simp

text \<open>
  C5, amended, on the stored entry that expires at 1000: read at 1001 and at 1000.
\<close>

theorem getCached_expiry_witness:
  "getCached example_page (at_rest (Some stored_5_3) 1001) = Inr None
   \<and> getCached example_page (at_rest (Some stored_5_3) 1000) =
       Inr (Some (JObj [(''likes'', JNum 5), (''dislikes'', JNum 3), (''expires'', JNum 1000),
                        (''cached'', JBool True), (''url'', JStr ''example.com/path'')]))"
proof -
  let ?kvs = "[(''likes'', JNum 5), (''dislikes'', JNum 3), (''expires'', JNum 1000)]"
  let ?tbl = "[(''example.com/path'', JObj ?kvs)]"
  have entry: "map_of ?tbl (getURL example_page) = Some (JObj ?kvs)"
    by (simp add: getURL_example_page)
  have expires: "map_of ?kvs ''expires'' = Some (JNum 1000)"
    by simp
  show ?thesis
    using getCached_expiry [OF getAllCache_stored_5_3 [of 1001] entry expires]
      getCached_expiry [OF getAllCache_stored_5_3 [of 1000] entry expires]
    by (simp add: at_rest_def getURL_example_page)
qed

subsection \<open>Writing and reading back: \<open>setCache\<close> then \<open>getCached\<close>\<close>

text \<open>
  C7, as the spec states it for every URL and over every store, fails. For the page
  \<open>http://__proto__/\<close> the key is \<open>__proto__\<close>: on the empty store the assignment of \<open>setCache\<close>
  reaches the setter of \<open>Object.prototype\<close> and stores no entry, so the text written is \<open>{}\<close>,
  and the read right after it finds the inherited member and returns an object with the marks
  \<open>cached\<close> and \<open>url\<close> and no tally. And when the store holds the text \<open>5\<close>, \<open>setCache\<close> throws a
  \<open>TypeError\<close> and writes nothing.
\<close>

theorem setCache_getCached_roundtrip_counterexample:
  "setCache proto_page (JObj [(''likes'', JNum 5), (''dislikes'', JNum 3)]) (at_rest None 1000)
     = Inr (setItem ''{}'' (at_rest None 1000))
   \<and> getCached proto_page (setItem ''{}'' (at_rest None 1000))
     = Inr (Some (JObj [(''cached'', JBool True), (''url'', JStr ''__proto__'')]))
   \<and> setCache example_page (JObj [(''likes'', JNum 5), (''dislikes'', JNum 3)]) (at_rest (Some ''5'') 1000)
     = Inl TypeError"
  by code_simp

text \<open>
  C7, amended. When the store holds a table (or nothing, or a falsy value, which count as the
  empty table), and the page's key is not \<open>__proto__\<close> or the table owns an entry under it:
  \<open>setCache\<close> of a tally succeeds, and \<open>getCached\<close> right after it returns the tally's \<open>likes\<close>
  and \<open>dislikes\<close>, with \<open>expires\<close> one hour (3600000 ms) after the write and the marks \<open>cached\<close>
  and \<open>url\<close>; once the clock has passed the write time plus that hour, \<open>getCached\<close> returns
  nothing. \<open>setCache\<close> takes no time-to-live: the hour is the constant of every write.
\<close>

theorem setCache_getCached_roundtrip:
  assumes "getAllCache w = Inr (JObj tbl)"
    and "getURL loc \<noteq> ''__proto__'' \<or> map_of tbl (getURL loc) \<noteq> None"
  shows "\<exists>w'. setCache loc (JObj [(''likes'', JNum l), (''dislikes'', JNum d)]) w = Inr w'
           \<and> getCached loc w' =
               Inr (Some (JObj [(''likes'', JNum l), (''dislikes'', JNum d),
                                (''expires'', JNum (clock w + 3600000)),
                                (''cached'', JBool True), (''url'', JStr (getURL loc))]))
           \<and> (\<forall>now. clock w + 3600000 < now \<longrightarrow> getCached loc (w'\<lparr>clock := now\<rparr>) = Inr None)"
proof -
  let ?t = "JObj [(''likes'', JNum l), (''dislikes'', JNum d)]"
  let ?kvs = "[(''likes'', JNum l), (''dislikes'', JNum d), (''expires'', JNum (clock w + ttl))]"
  let ?tbl = "AList.update (getURL loc) (JObj ?kvs) tbl"
  obtain w' where set: "setCache loc ?t w = Inr w'"
    and w': "w' = setItem (JSON_stringify (JObj ?tbl)) w"
    and table: "getAllCache w' = Inr (JObj ?tbl)"
    using setCache_then_table [OF assms(1) _ _ assms(2), of ?t "[(''likes'', JNum l), (''dislikes'', JNum d)]"]
    by (auto simp: spread_def)
  have entry: "map_of ?tbl (getURL loc) = Some (JObj ?kvs)"
    by (simp add: update_conv')
  have expires: "map_of ?kvs ''expires'' = Some (JNum (clock w + ttl))"
    by simp
  have now: "getCached loc w' = Inr (Some (JObj (AList.update ''url'' (JStr (getURL loc))
                               (AList.update ''cached'' (JBool True) ?kvs))))"
    using getCached_found [OF table entry expires] by (simp add: w' ttl_def)
  have later: "getCached loc (w'\<lparr>clock := c\<rparr>) = Inr None" if "clock w + ttl < c" for c
    using getCached_found [of "w'\<lparr>clock := c\<rparr>", OF _ entry expires] table that by simp
  show ?thesis
    using set now later by (auto simp: ttl_value)
qed

text \<open>
  C7, amended, on the empty store, the tally 5, 3 written at 1000.
\<close>

theorem setCache_getCached_roundtrip_witness:
  "(\<exists>w'. setCache example_page (JObj [(''likes'', JNum 5), (''dislikes'', JNum 3)]) (at_rest None 1000) = Inr w'
      \<and> getCached example_page w' =
          Inr (Some (JObj [(''likes'', JNum 5), (''dislikes'', JNum 3), (''expires'', JNum 3601000),
                           (''cached'', JBool True), (''url'', JStr ''example.com/path'')]))
      \<and> getCached example_page (w'\<lparr>clock := 3601001\<rparr>) = Inr None)"
proof -
  have table: "getAllCache (at_rest None 1000) = Inr (JObj [])"
    by (simp add: getAllCache_def at_rest_def)
  have key: "getURL example_page \<noteq> ''__proto__'' \<or> map_of [] (getURL example_page) \<noteq> None"
    by (simp add: getURL_example_page)
  show ?thesis
    using setCache_getCached_roundtrip [OF table key, of 5 3]
    by (auto simp: at_rest_def getURL_example_page)
qed

subsection \<open>Cache or fetch: \<open>getRating\<close>\<close>

lemma request_rating:
  "request srv ''rating'' ''GET'' [(''url'', href loc)] w =
     (case arrival (srv (rating_request loc)) of
        Failed \<Rightarrow> Inl NetworkError
      | Body text \<Rightarrow> JSON_parse text,
      after_reply (rating_request loc) (delay (srv (rating_request loc))) w)"
  by (simp add: request_def rating_request_def after_reply_def Let_def split: fetched.splits)


lemma getRating_miss_failed:
  assumes "getCached loc w = Inr None" and "arrival (srv (rating_request loc)) = Failed"
  shows "getRating srv loc w =
           (Inl NetworkError, after_reply (rating_request loc) (delay (srv (rating_request loc))) w)"
  using assms by (simp add: getRating_def request_rating)

lemma getRating_miss_unparsable:
  assumes "getCached loc w = Inr None" and "arrival (srv (rating_request loc)) = Body text"
    and "JSON_parse text = Inl err"
  shows "getRating srv loc w =
           (Inl err, after_reply (rating_request loc) (delay (srv (rating_request loc))) w)"
  using assms by (simp add: getRating_def request_rating)

lemma getRating_miss_fetched:
  assumes "getAllCache w = Inr (JObj tbl)" and "getCached loc w = Inr None"
    and "arrival (srv (rating_request loc)) = Body text" and "JSON_parse text = Inr v"
    and "spread v = Inr kvs"
  shows "getRating srv loc w =
           (Inr v,
            setItem (JSON_stringify (JObj (AList.update (getURL loc)
                (JObj (AList.update ''expires''
                   (JNum (clock w + int (delay (srv (rating_request loc))) + ttl)) kvs)) tbl)))
              (after_reply (rating_request loc) (delay (srv (rating_request loc))) w))"
    and "getAllCache (setItem (JSON_stringify (JObj (AList.update (getURL loc)
                (JObj (AList.update ''expires''
                   (JNum (clock w + int (delay (srv (rating_request loc))) + ttl)) kvs)) tbl)))
              (after_reply (rating_request loc) (delay (srv (rating_request loc))) w))
         = Inr (JObj (AList.update (getURL loc)
                (JObj (AList.update ''expires''
                   (JNum (clock w + int (delay (srv (rating_request loc))) + ttl)) kvs)) tbl))"
proof -
  let ?w1 = "after_reply (rating_request loc) (delay (srv (rating_request loc))) w"
  have table: "getAllCache ?w1 = Inr (JObj tbl)"
    using assms(1) by simp
  have v: "distinct_keys v"
    by (rule JSON_parse_distinct_keys [OF assms(4)])
  obtain w' where set: "setCache loc v ?w1 = Inr w'"
    and w': "w' = setItem (JSON_stringify (JObj (AList.update (getURL loc)
                  (JObj (AList.update ''expires'' (JNum (clock ?w1 + ttl)) kvs)) tbl))) ?w1"
    and after: "getAllCache w' = Inr (JObj (AList.update (getURL loc)
                  (JObj (AList.update ''expires'' (JNum (clock ?w1 + ttl)) kvs)) tbl))"
    using setCache_then_table [OF table assms(5) v miss_stores [OF assms(1,2)]] by blast
  show "getRating srv loc w =
           (Inr v,
            setItem (JSON_stringify (JObj (AList.update (getURL loc)
                (JObj (AList.update ''expires''
                   (JNum (clock w + int (delay (srv (rating_request loc))) + ttl)) kvs)) tbl)))
              (after_reply (rating_request loc) (delay (srv (rating_request loc))) w))"
    using assms(2,3,4) set w' by (simp add: getRating_def request_rating)
  show "getAllCache (setItem (JSON_stringify (JObj (AList.update (getURL loc)
                (JObj (AList.update ''expires''
                   (JNum (clock w + int (delay (srv (rating_request loc))) + ttl)) kvs)) tbl)))
              (after_reply (rating_request loc) (delay (srv (rating_request loc))) w))
         = Inr (JObj (AList.update (getURL loc)
                (JObj (AList.update ''expires''
                   (JNum (clock w + int (delay (srv (rating_request loc))) + ttl)) kvs)) tbl))"
    using after w' by simp
qed





subsection \<open>The first load: \<open>load\<close>\<close>

lemma update_counts:
  "update flag loc s w = (e, s', w') \<Longrightarrow> likes s' = likes s \<and> dislikes s' = dislikes s"
  by (auto simp: update_def Let_def split: if_splits sum.splits)

lemma update_writes_back:
  assumes "getAllCache w = Inr (JObj tbl)"
    and "getURL loc \<noteq> ''__proto__'' \<or> map_of tbl (getURL loc) \<noteq> None"
  shows "\<exists>s' w' written.
           update True loc s w = (None, s', w')
           \<and> getAllCache w' =
             Inr (JObj (AList.update (getURL loc)
                    (JObj [(''likes'', JNum (likes s)), (''dislikes'', JNum (dislikes s)),
                           (''expires'', JNum (clock w + ttl))]) tbl))
           \<and> writes w' = writes w @ [written] \<and> storage w' = Some written
           \<and> requests w' = requests w \<and> clock w' = clock w"
proof -
  let ?t = "JObj [(''likes'', JNum (likes s)), (''dislikes'', JNum (dislikes s))]"
  obtain w2 where set: "setCache loc ?t w = Inr w2"
    and w2: "w2 = setItem (JSON_stringify (JObj (AList.update (getURL loc)
                  (JObj (AList.update ''expires'' (JNum (clock w + ttl))
                     [(''likes'', JNum (likes s)), (''dislikes'', JNum (dislikes s))])) tbl))) w"
    and table: "getAllCache w2 = Inr (JObj (AList.update (getURL loc)
                  (JObj (AList.update ''expires'' (JNum (clock w + ttl))
                     [(''likes'', JNum (likes s)), (''dislikes'', JNum (dislikes s))])) tbl))"
    using setCache_then_table [OF assms(1) _ _ assms(2),
        of ?t "[(''likes'', JNum (likes s)), (''dislikes'', JNum (dislikes s))]"]
    by (auto simp: spread_def)
  obtain s' where "update True loc s w = (None, s', w2)"
    using set by (simp add: update_def Let_def)
  then show ?thesis
    using w2 table by (intro exI [of _ s'] exI [of _ w2]) auto
qed


lemma load_adopt_fetched:
  assumes "getRating srv loc w = (Inr (JObj kvs), w1)"
  shows "load_adopt srv loc w = (Inr (JObj kvs, map_of kvs ''likes'', map_of kvs ''dislikes''), w1)"
  using assms by (simp add: load_adopt_def js_get_def)




subsection \<open>A fetched rating is adopted as it is\<close>

text \<open>
  C10, as the spec states it, fails. When the store holds the text \<open>5\<close>, a miss is followed by
  the remote read, and then \<open>setCache\<close> throws a \<open>TypeError\<close>: an exception that is neither a
  transport failure nor an unparsable body, raised after the read, and the well-formed response
  is neither written nor returned.
\<close>

theorem getRating_miss_unvalidated_counterexample:
  "getRating (answering ''{\"likes\":5,\"dislikes\":3}'') example_page (at_rest (Some ''5'') 1000)
     = (Inl TypeError,
        \<lparr>storage = Some ''5'', clock = 1120, requests = [rating_request example_page], writes = []\<rparr>)"
  by code_simp

text \<open>
  C10, amended. On a miss over a store that holds a table (or nothing, or a falsy value, which
  count as the empty table), whatever value the body of the reply parses to is returned as it
  is and written to the table under the page with a fresh \<open>expires\<close>, whether or not it has
  \<open>likes\<close> and \<open>dislikes\<close>. When it is an object, \<open>load\<close> assigns its \<open>likes\<close> and \<open>dislikes\<close> to
  \<open>this.likes\<close> and \<open>this.dislikes\<close> as they are, \<open>undefined\<close> for the ones it lacks; when both are
  integers, \<open>load\<close> ends with them as the tally of the session. When the request fails or the
  body does not parse, \<open>getRating\<close> ends in that exception and nothing has been written.
\<close>

theorem getRating_miss_unvalidated:
  assumes "getAllCache w = Inr (JObj tbl)" and "getCached loc w = Inr None"
  shows "(srv (rating_request loc) = \<lparr>delay = t, arrival = Body body\<rparr>
            \<and> JSON_parse body = Inr v \<and> spread v = Inr kvs \<longrightarrow>
          (\<exists>w'. getRating srv loc w = (Inr v, w')
             \<and> getAllCache w' =
                 Inr (JObj (AList.update (getURL loc)
                        (JObj (AList.update ''expires'' (JNum (clock w + int t + ttl)) kvs)) tbl))))
       \<and> (srv (rating_request loc) = \<lparr>delay = t, arrival = Body body\<rparr>
            \<and> JSON_parse body = Inr (JObj kvs) \<longrightarrow>
          (\<exists>w'. load_adopt srv loc w =
                   (Inr (JObj kvs, map_of kvs ''likes'', map_of kvs ''dislikes''), w')
             \<and> getAllCache w' =
                 Inr (JObj (AList.update (getURL loc)
                        (JObj (AList.update ''expires'' (JNum (clock w + int t + ttl)) kvs)) tbl))))
       \<and> (srv (rating_request loc) = \<lparr>delay = t, arrival = Body body\<rparr>
            \<and> JSON_parse body = Inr (JObj kvs)
            \<and> map_of kvs ''likes'' = Some (JNum l) \<and> map_of kvs ''dislikes'' = Some (JNum d) \<longrightarrow>
          (\<exists>s w'. load srv loc w = (Inr s, w') \<and> likes s = l \<and> dislikes s = d))
       \<and> (arrival (srv (rating_request loc)) = Failed \<longrightarrow>
          (\<exists>w'. getRating srv loc w = (Inl NetworkError, w')
             \<and> storage w' = storage w \<and> writes w' = writes w))
       \<and> (arrival (srv (rating_request loc)) = Body body \<and> JSON_parse body = Inl SyntaxError \<longrightarrow>
          (\<exists>w'. getRating srv loc w = (Inl SyntaxError, w')
             \<and> storage w' = storage w \<and> writes w' = writes w))"
proof (intro conjI impI)
  assume ok: "srv (rating_request loc) = \<lparr>delay = t, arrival = Body body\<rparr>
            \<and> JSON_parse body = Inr v \<and> spread v = Inr kvs"
  then have reply: "arrival (srv (rating_request loc)) = Body body" "delay (srv (rating_request loc)) = t"
    by simp_all
  show "\<exists>w'. getRating srv loc w = (Inr v, w')
             \<and> getAllCache w' =
                 Inr (JObj (AList.update (getURL loc)
                        (JObj (AList.update ''expires'' (JNum (clock w + int t + ttl)) kvs)) tbl))"
    using getRating_miss_fetched [where srv = srv, OF assms reply(1)] ok
    by (simp add: reply(2))
next
  assume ok: "srv (rating_request loc) = \<lparr>delay = t, arrival = Body body\<rparr>
            \<and> JSON_parse body = Inr (JObj kvs)"
  then have reply: "arrival (srv (rating_request loc)) = Body body" "delay (srv (rating_request loc)) = t"
    by simp_all
  have spread: "spread (JObj kvs) = Inr kvs"
    by (simp add: spread_def)
  obtain w' where run: "getRating srv loc w = (Inr (JObj kvs), w')"
    and table: "getAllCache w' =
                 Inr (JObj (AList.update (getURL loc)
                        (JObj (AList.update ''expires'' (JNum (clock w + int t + ttl)) kvs)) tbl))"
    using getRating_miss_fetched [where srv = srv, OF assms reply(1) _ spread] ok
    by (simp add: reply(2))
  show "\<exists>w'. load_adopt srv loc w =
                   (Inr (JObj kvs, map_of kvs ''likes'', map_of kvs ''dislikes''), w')
             \<and> getAllCache w' =
                 Inr (JObj (AList.update (getURL loc)
                        (JObj (AList.update ''expires'' (JNum (clock w + int t + ttl)) kvs)) tbl))"
    using load_adopt_fetched [OF run] table by blast
next
  assume ok: "srv (rating_request loc) = \<lparr>delay = t, arrival = Body body\<rparr>
            \<and> JSON_parse body = Inr (JObj kvs)
            \<and> map_of kvs ''likes'' = Some (JNum l) \<and> map_of kvs ''dislikes'' = Some (JNum d)"
  then have reply: "arrival (srv (rating_request loc)) = Body body" "delay (srv (rating_request loc)) = t"
    by simp_all
  have spread: "spread (JObj kvs) = Inr kvs"
    by (simp add: spread_def)
  obtain w1 where run: "getRating srv loc w = (Inr (JObj kvs), w1)"
    and table: "getAllCache w1 =
                 Inr (JObj (AList.update (getURL loc)
                        (JObj (AList.update ''expires'' (JNum (clock w + int t + ttl)) kvs)) tbl))"
    using getRating_miss_fetched [where srv = srv, OF assms reply(1) _ spread] ok
    by (simp add: reply(2))
  have adopt: "load_adopt srv loc w = (Inr (JObj kvs, Some (JNum l), Some (JNum d)), w1)"
    using load_adopt_fetched [OF run] ok by simp
  obtain s w' where upd: "update True loc (fresh l d) w1 = (None, s, w')"
    using update_writes_back [OF table, of loc "fresh l d"] by (auto simp: update_conv')
  have "load srv loc w = (Inr s, w')"
    using adopt upd by (simp add: load_def truthy_def)
  moreover have "likes s = l" "dislikes s = d"
    using update_counts [OF upd] by (simp_all add: fresh_def)
  ultimately show "\<exists>s w'. load srv loc w = (Inr s, w') \<and> likes s = l \<and> dislikes s = d"
    by blast
next
  assume "arrival (srv (rating_request loc)) = Failed"
  then show "\<exists>w'. getRating srv loc w = (Inl NetworkError, w')
             \<and> storage w' = storage w \<and> writes w' = writes w"
    using getRating_miss_failed [OF assms(2)] by simp
next
  assume "arrival (srv (rating_request loc)) = Body body \<and> JSON_parse body = Inl SyntaxError"
  then show "\<exists>w'. getRating srv loc w = (Inl SyntaxError, w')
             \<and> storage w' = storage w \<and> writes w' = writes w"
    using getRating_miss_unparsable [OF assms(2)] by simp
qed

lemma JSON_parse_error_payload:
  "JSON_parse ''{\"error\":\"no such page\"}'' = Inr (JObj [(''error'', JStr ''no such page'')])"
  by code_simp

lemma JSON_parse_html: "JSON_parse ''<html>'' = Inl SyntaxError"
  by code_simp

text \<open>
  C10, amended, on the empty store: an error payload is cached and returned, and \<open>load\<close>
  assigns \<open>undefined\<close> to both counts; the tally 5, 3 is adopted; an unreachable server and an
  HTML body end in an exception with the store untouched.
\<close>

theorem getRating_miss_unvalidated_witness:
  "(\<exists>w'. getRating (answering ''{\"error\":\"no such page\"}'') example_page (at_rest None 1000) =
            (Inr (JObj [(''error'', JStr ''no such page'')]), w')
         \<and> getAllCache w' =
             Inr (JObj [(''example.com/path'',
                   JObj [(''error'', JStr ''no such page''), (''expires'', JNum 3601120)])]))
   \<and> (\<exists>w'. load_adopt (answering ''{\"error\":\"no such page\"}'') example_page (at_rest None 1000) =
            (Inr (JObj [(''error'', JStr ''no such page'')], None, None), w')
         \<and> getAllCache w' =
             Inr (JObj [(''example.com/path'',
                   JObj [(''error'', JStr ''no such page''), (''expires'', JNum 3601120)])]))
   \<and> (\<exists>s w'. load (answering ''{\"likes\":5,\"dislikes\":3}'') example_page (at_rest None 1000) = (Inr s, w')
         \<and> likes s = 5 \<and> dislikes s = 3)
   \<and> (\<exists>w'. getRating unreachable example_page (at_rest None 1000) = (Inl NetworkError, w')
         \<and> storage w' = None \<and> writes w' = [])
   \<and> (\<exists>w'. getRating (answering ''<html>'') example_page (at_rest None 1000) = (Inl SyntaxError, w')
         \<and> storage w' = None \<and> writes w' = [])"
proof -
  have empty: "getAllCache (at_rest None 1000) = Inr (JObj [])"
    by (simp add: getAllCache_def at_rest_def)
  have miss: "getCached example_page (at_rest None 1000) = Inr None"
    using getCached_absent [OF empty] example_page_not_member by simp
  have payload: "answering ''{\"error\":\"no such page\"}'' (rating_request example_page)
                  = \<lparr>delay = 120, arrival = Body ''{\"error\":\"no such page\"}''\<rparr>
       \<and> JSON_parse ''{\"error\":\"no such page\"}'' = Inr (JObj [(''error'', JStr ''no such page'')])
       \<and> spread (JObj [(''error'', JStr ''no such page'')]) = Inr [(''error'', JStr ''no such page'')]"
    by (simp add: answering_def JSON_parse_error_payload spread_def)
  have tally: "answering ''{\"likes\":5,\"dislikes\":3}'' (rating_request example_page)
                  = \<lparr>delay = 120, arrival = Body ''{\"likes\":5,\"dislikes\":3}''\<rparr>
       \<and> JSON_parse ''{\"likes\":5,\"dislikes\":3}'' = Inr (JObj [(''likes'', JNum 5), (''dislikes'', JNum 3)])
       \<and> map_of [(''likes'', JNum 5), (''dislikes'', JNum 3)] ''likes'' = Some (JNum 5)
       \<and> map_of [(''likes'', JNum 5), (''dislikes'', JNum 3)] ''dislikes'' = Some (JNum 3)"
    by (simp add: answering_def JSON_parse_5_3)
  have failed: "arrival (unreachable (rating_request example_page)) = Failed"
    by (simp add: unreachable_def)
  have html: "arrival (answering ''<html>'' (rating_request example_page)) = Body ''<html>''
       \<and> JSON_parse ''<html>'' = Inl SyntaxError"
    by (simp add: answering_def JSON_parse_html)
  show ?thesis
    using getRating_miss_unvalidated [OF empty miss, where srv = "answering ''{\"error\":\"no such page\"}''"
        and t = 120 and body = "''{\"error\":\"no such page\"}''"
        and v = "JObj [(''error'', JStr ''no such page'')]"
        and kvs = "[(''error'', JStr ''no such page'')]"]
      getRating_miss_unvalidated [OF empty miss, where srv = "answering ''{\"likes\":5,\"dislikes\":3}''"
        and t = 120 and body = "''{\"likes\":5,\"dislikes\":3}''"
        and kvs = "[(''likes'', JNum 5), (''dislikes'', JNum 3)]" and l = 5 and d = 3]
      getRating_miss_unvalidated [OF empty miss, where srv = unreachable]
      getRating_miss_unvalidated [OF empty miss, where srv = "answering ''<html>''" and body = "''<html>''"]
      payload tally failed html
    by (simp add: getURL_example_page at_rest_def ttl_def)
qed

subsection \<open>The progress bar: \<open>update\<close>\<close>

text \<open>
  C4 at the tally of 5 likes and 3 dislikes. \<open>update\<close> sets the bar to
  \<open>Math.floor(likes / total)\<close> out of \<open>total\<close>, that is 0 out of 8: the bar shows the ratio 0 and
  not 5/8.
\<close>

theorem update_progress_at_5_3:
  "progress_value (fst (snd (update False loc (fresh 5 3) w))) = 0
   \<and> progress_max (fst (snd (update False loc (fresh 5 3) w))) = 8
   \<and> real_of_int (progress_value (fst (snd (update False loc (fresh 5 3) w))))
       / real_of_int (progress_max (fst (snd (update False loc (fresh 5 3) w)))) \<noteq> 5 / 8"
  by (simp add: update_def fresh_def Let_def)

subsection \<open>Votes: \<open>like\<close> and \<open>dislike\<close>\<close>











text \<open>
  C2 at the tally 5, 4 with a reply that carries an error flag. \<open>like\<close> returns before
  \<open>update\<close> and writes nothing. \<open>dislike\<close> has no such test: it leaves the tally as it is but
  calls \<open>update(true)\<close>, which writes the table with a fresh \<open>expires\<close>.
\<close>

theorem dislike_error_flag_writes:
  "fst (dislike (answering ''{\"error\":true}'') example_page (ready 5 4) (at_rest None 1000)) = None
   \<and> likes (fst (snd (dislike (answering ''{\"error\":true}'') example_page (ready 5 4) (at_rest None 1000)))) = 5
   \<and> dislikes (fst (snd (dislike (answering ''{\"error\":true}'') example_page (ready 5 4) (at_rest None 1000)))) = 4
   \<and> writes (snd (snd (dislike (answering ''{\"error\":true}'') example_page (ready 5 4) (at_rest None 1000))))
       = [''{\"example.com/path\":{\"likes\":5,\"dislikes\":4,\"expires\":3601120}}'']
   \<and> storage (snd (snd (dislike (answering ''{\"error\":true}'') example_page (ready 5 4) (at_rest None 1000))))
       = Some ''{\"example.com/path\":{\"likes\":5,\"dislikes\":4,\"expires\":3601120}}''
   \<and> writes (snd (snd (like (answering ''{\"error\":true}'') example_page (ready 5 4) (at_rest None 1000)))) = []
   \<and> storage (snd (snd (like (answering ''{\"error\":true}'') example_page (ready 5 4) (at_rest None 1000)))) = None"
  by code_simp

subsection \<open>The cache key: \<open>getURL\<close>\<close>

lemma strip_prefix_Some_iff: "strip_prefix pat s = Some r \<longleftrightarrow> s = pat @ r"
  by (induction pat s rule: strip_prefix.induct) auto

lemma contains_iff: "contains pat s \<longleftrightarrow> (\<exists>a b. s = a @ pat @ b)"
proof (induction s)
  case Nil
  then show ?case by auto
next
  case (Cons c cs)
  have "(\<exists>a b. c # cs = a @ pat @ b) \<longleftrightarrow> (\<exists>b. c # cs = pat @ b) \<or> (\<exists>a b. cs = a @ pat @ b)"
  proof
    assume "\<exists>a b. c # cs = a @ pat @ b"
    then obtain a b where eq: "c # cs = a @ pat @ b" by blast
    show "(\<exists>b. c # cs = pat @ b) \<or> (\<exists>a b. cs = a @ pat @ b)"
    proof (cases a)
      case Nil
      then show ?thesis using eq by auto
    next
      case (Cons x a')
      then have "cs = a' @ pat @ b" using eq by simp
      then show ?thesis by blast
    qed
  next
    assume "(\<exists>b. c # cs = pat @ b) \<or> (\<exists>a b. cs = a @ pat @ b)"
    then show "\<exists>a b. c # cs = a @ pat @ b"
    proof
      assume "\<exists>b. c # cs = pat @ b"
      then obtain b where "c # cs = [] @ pat @ b" by auto
      then show ?thesis by blast
    next
      assume "\<exists>a b. cs = a @ pat @ b"
      then obtain a b where "c # cs = (c # a) @ pat @ b" by auto
      then show ?thesis by blast
    qed
  qed
  moreover have "strip_prefix pat (c # cs) \<noteq> None \<longleftrightarrow> (\<exists>b. c # cs = pat @ b)"
    using strip_prefix_Some_iff [of pat "c # cs"] by auto
  ultimately show ?case
    using Cons.IH by simp
qed

lemma remove_first_absent: "\<not> contains pat s \<Longrightarrow> remove_first pat s = s"
  by (induction s) (auto split: option.splits)

lemma remove_first_prefix: "pat \<noteq> [] \<Longrightarrow> remove_first pat (pat @ t) = t"
proof -
  assume "pat \<noteq> []"
  then obtain c cs where "pat @ t = c # cs" by (cases pat) auto
  moreover have "strip_prefix pat (pat @ t) = Some t"
    by (simp add: strip_prefix_Some_iff)
  ultimately show ?thesis by simp
qed

lemma contains_butlast: "contains pat (butlast s) \<Longrightarrow> contains pat s"
proof -
  assume "contains pat (butlast s)"
  then obtain a b where eq: "butlast s = a @ pat @ b"
    by (auto simp: contains_iff)
  show ?thesis
  proof (cases "s = []")
    case True
    then show ?thesis using eq by (simp add: contains_iff)
  next
    case False
    then have "s = a @ pat @ (b @ [last s])"
      using eq append_butlast_last_id [of s] by simp
    then show ?thesis unfolding contains_iff by blast
  qed
qed

lemma contains_strip_trailing_slash: "\<not> contains pat s \<Longrightarrow> \<not> contains pat (strip_trailing_slash s)"
  using contains_butlast [of pat s] by (auto simp: strip_trailing_slash_def)

lemma strip_trailing_slash_twice:
  "\<not> (\<exists>u. t = u @ ''//'') \<Longrightarrow> strip_trailing_slash (strip_trailing_slash t) = strip_trailing_slash t"
proof -
  assume once: "\<not> (\<exists>u. t = u @ ''//'')"
  show ?thesis
  proof (cases "t \<noteq> [] \<and> last t = CHR ''/''")
    case False
    then show ?thesis by (auto simp: strip_trailing_slash_def)
  next
    case True
    then have t: "t = butlast t @ ''/''"
      using append_butlast_last_id [of t] by simp
    have "\<not> (butlast t \<noteq> [] \<and> last (butlast t) = CHR ''/'')"
    proof
      assume "butlast t \<noteq> [] \<and> last (butlast t) = CHR ''/''"
      then have "butlast t = butlast (butlast t) @ ''/''"
        using append_butlast_last_id [of "butlast t"] by simp
      then have "t = butlast (butlast t) @ ''//''"
        using t by (metis append.assoc append_Cons append_Nil)
      then show False using once by blast
    qed
    then show ?thesis
      using True by (auto simp: strip_trailing_slash_def)
  qed
qed

lemma strip_trailing_slash_www:
  "strip_trailing_slash (''www.'' @ t) = ''www.'' @ strip_trailing_slash t"
  by (cases "t = []") (auto simp: strip_trailing_slash_def butlast_append)

text \<open>
  C6, as the spec states it, fails. The string transform of \<open>getURL\<close> removes one occurrence
  of \<open>www.\<close>; applied again to its own result it removes another: the key of the page
  \<open>https://www.www.example.com/\<close> is \<open>www.example.com\<close>, which the transform takes to
  \<open>example.com\<close>.
\<close>

theorem normalize_twice_counterexample:
  "normalize_url (getURL \<lparr>href = ''https://www.www.example.com/'',
                             hostname = ''www.www.example.com'', pathname = ''/''\<rparr>)
     \<noteq> getURL \<lparr>href = ''https://www.www.example.com/'',
                  hostname = ''www.www.example.com'', pathname = ''/''\<rparr>"
  by code_simp

text \<open>
  C6, amended. \<open>getURL\<close> maps the two URLs of the example to the same key; it reads the
  hostname and the path only, so the scheme, the query and the fragment, which only \<open>href\<close>
  holds, do not matter, and it is a function: the same page gives the same key. Its string
  transform removes one trailing slash and a leading \<open>www.\<close>, and is idempotent, on every
  host and path that has no further \<open>www.\<close> and does not end in two slashes.
\<close>

theorem getURL_normalization:
  "getURL \<lparr>href = ''https://www.example.com/path/'', hostname = ''www.example.com'',
           pathname = ''/path/''\<rparr>
     = getURL \<lparr>href = ''http://example.com/path'', hostname = ''example.com'', pathname = ''/path''\<rparr>
   \<and> getURL (loc\<lparr>href := h\<rparr>) = getURL loc
   \<and> (\<not> contains ''www.'' t \<and> \<not> (\<exists>u. t = u @ ''//'') \<longrightarrow>
        normalize_url t = strip_trailing_slash t
        \<and> normalize_url (''www.'' @ t) = strip_trailing_slash t
        \<and> normalize_url (normalize_url t) = normalize_url t
        \<and> normalize_url (normalize_url (''www.'' @ t)) = normalize_url (''www.'' @ t))"
proof (intro conjI impI)
  show "getURL \<lparr>href = ''https://www.example.com/path/'', hostname = ''www.example.com'',
           pathname = ''/path/''\<rparr>
     = getURL \<lparr>href = ''http://example.com/path'', hostname = ''example.com'', pathname = ''/path''\<rparr>"
    by code_simp
  show "getURL (loc\<lparr>href := h\<rparr>) = getURL loc"
    by (simp add: getURL_def)
next
  assume t: "\<not> contains ''www.'' t \<and> \<not> (\<exists>u. t = u @ ''//'')"
  then have free: "\<not> contains ''www.'' (strip_trailing_slash t)"
    by (simp add: contains_strip_trailing_slash)
  have twice: "strip_trailing_slash (strip_trailing_slash t) = strip_trailing_slash t"
    using t by (intro strip_trailing_slash_twice) simp
  show plain: "normalize_url t = strip_trailing_slash t"
    using free by (simp add: normalize_url_def remove_first_absent)
  show www: "normalize_url (''www.'' @ t) = strip_trailing_slash t"
    unfolding normalize_url_def strip_trailing_slash_www by (rule remove_first_prefix) simp
  have again: "normalize_url (strip_trailing_slash t) = strip_trailing_slash t"
    using free twice by (simp add: normalize_url_def remove_first_absent)
  show "normalize_url (normalize_url t) = normalize_url t"
    by (simp only: plain again)
  show "normalize_url (normalize_url (''www.'' @ t)) = normalize_url (''www.'' @ t)"
    by (simp only: www again)
qed

text \<open>
  C6, amended, on the host and path \<open>example.com/path/\<close>.
\<close>

theorem getURL_normalization_witness:
  "getURL \<lparr>href = ''https://www.example.com/path/'', hostname = ''www.example.com'',
           pathname = ''/path/''\<rparr>
     = getURL \<lparr>href = ''http://example.com/path'', hostname = ''example.com'', pathname = ''/path''\<rparr>
   \<and> getURL (example_page\<lparr>href := ''http://example.com/path''\<rparr>) = getURL example_page
   \<and> normalize_url ''example.com/path/'' = ''example.com/path''
   \<and> normalize_url ''www.example.com/path/'' = ''example.com/path''
   \<and> normalize_url (normalize_url ''example.com/path/'') = normalize_url ''example.com/path/''
   \<and> normalize_url (normalize_url ''www.example.com/path/'') = normalize_url ''www.example.com/path/''"
proof -
  have free: "\<not> contains ''www.'' ''example.com/path/''"
    by code_simp
  have once: "\<not> (\<exists>u. ''example.com/path/'' = u @ ''//'')"
  proof
    assume "\<exists>u. ''example.com/path/'' = u @ ''//''"
    then obtain u where "''example.com/path/'' = u @ ''//''" by blast
    then have "rev ''example.com/path/'' = rev (u @ ''//'')" by simp
    then show False by simp
  qed
  have strip: "strip_trailing_slash ''example.com/path/'' = ''example.com/path''"
    by (simp add: strip_trailing_slash_def)
  show ?thesis
    using getURL_normalization [where loc = example_page and h = "''http://example.com/path''"
        and t = "''example.com/path/''"]
      free once strip
    by (simp add: normalize_url_def strip_trailing_slash_def)
qed

end
